theory Spec2Isabelle
  imports Main
begin

section \<open>The platform: URLSearchParams objects\<close>

text \<open>
  A \<^verbatim>\<open>URLSearchParams\<close> object is an ordered list of name/value pairs; a name may repeat.
  The five methods the library calls are modelled after the URL standard:
  \<^verbatim>\<open>get\<close> returns the value of the first pair with the name (or null), \<^verbatim>\<open>getAll\<close> the values
  of all pairs with the name in order, \<^verbatim>\<open>delete\<close> removes every pair with the name,
  \<^verbatim>\<open>append\<close> adds a pair at the end, and \<^verbatim>\<open>set\<close> overwrites the first pair with the name and
  removes the others, or appends when there is none.
\<close>

type_synonym params = "(string \<times> string) list"

definition get_param :: "string \<Rightarrow> params \<Rightarrow> string option" where
  "get_param name ps = map_of ps name"

definition getAll :: "string \<Rightarrow> params \<Rightarrow> string list" where
  "getAll name ps = map snd (filter (\<lambda>e. fst e = name) ps)"

definition delete_param :: "string \<Rightarrow> params \<Rightarrow> params" where
  "delete_param name ps = filter (\<lambda>e. fst e \<noteq> name) ps"

definition append_param :: "string \<Rightarrow> string \<Rightarrow> params \<Rightarrow> params" where
  "append_param name v ps = ps @ [(name, v)]"

fun set_param :: "string \<Rightarrow> string \<Rightarrow> params \<Rightarrow> params" where
  "set_param name v [] = [(name, v)]"
| "set_param name v (e # ps) =
     (if fst e = name then (name, v) # delete_param name ps
      else e # set_param name v ps)"

section \<open>The module state\<close>

text \<open>
  \<^verbatim>\<open>options.navigate\<close> is either the library's \<^verbatim>\<open>defaultNavigate\<close> or a function supplied by
  the caller. A caller's function is opaque: the model records that it was called and
  with what, and nothing else.
\<close>

datatype navigate = DefaultNavigate | CustomNavigate nat

text \<open>
  The only failure the code can meet is a reference to \<^verbatim>\<open>window\<close> where there is none.
\<close>

datatype error = ReferenceError

text \<open>
  \<^verbatim>\<open>serializer.read\<close> and \<^verbatim>\<open>serializer.write\<close> (\<open>write\<close> is a keyword of Isabelle, so
  both fields carry a prefix). For \<^verbatim>\<open>useSearchParam\<close> the raw type \<open>'r\<close> is
  \<open>string option\<close> (\<^verbatim>\<open>string | null\<close>), for \<^verbatim>\<open>useSearchParamArray\<close> it is \<open>string\<close>.
\<close>

record ('r, 'a) serializer =
  ser_read :: "'r \<Rightarrow> 'a"
  ser_write :: "'a \<Rightarrow> 'r"

text \<open>
  The closure of one returned ref: the captured \<^verbatim>\<open>name\<close>, \<^verbatim>\<open>navigate\<close> and \<^verbatim>\<open>serializer\<close>, the
  two local variables \<^verbatim>\<open>writableValue\<close> and \<^verbatim>\<open>readableValue\<close>, whether its \<^verbatim>\<open>watch\<close> on the
  shared ref exists and is still running, the effect scope that owns that watcher, and
  how many times \<^verbatim>\<open>_trigger()\<close> has notified the observers of the ref.
\<close>

record ('r, 'a, 'w, 't) binding =
  ref_name :: string
  ref_navigate :: navigate
  ref_serializer :: "('r, 'a) serializer"
  writableValue :: 'w
  readableValue :: 't
  watching :: bool
  owner_scope :: "nat option"
  triggered :: nat

type_synonym 'a scalar_binding = "(string option, 'a, string option, 'a) binding"
type_synonym 'a array_binding = "(string, 'a, string list, 'a list) binding"

text \<open>
  The world (\<open>'a\<close> is the value type of the scalar refs, \<open>'b\<close> the item type of the array
  refs): the module constant \<^verbatim>\<open>isClient\<close>; the URLSearchParams objects by address and
  the address held by \<^verbatim>\<open>_internal.searchParams.value\<close>; \<^verbatim>\<open>_internal.isListeningPopsate\<close>;
  the entries of \<^verbatim>\<open>window.location.search\<close>; the live \<^verbatim>\<open>popstate\<close> listeners of the window
  (each \<^verbatim>\<open>onPopstate\<close> closure has its own identity); the \<^verbatim>\<open>onScopeDispose\<close> hooks as pairs
  of scope and listener; the refs created so far; the callbacks queued by \<^verbatim>\<open>nextTick\<close>; and
  the \<^verbatim>\<open>navigate\<close> calls made so far with the entries they were given.
\<close>

record ('a, 'b) world =
  isClient :: bool
  heap :: "nat \<Rightarrow> params"
  next_obj :: nat
  searchParams :: nat
  isListeningPopsate :: bool
  location_search :: params
  listeners :: "nat list"
  next_listener :: nat
  dispose_hooks :: "(nat \<times> nat) list"
  scalars :: "'a scalar_binding list"
  arrays :: "'b array_binding list"
  pending :: "navigate list"
  nav_log :: "(navigate \<times> params) list"

text \<open>
  Module load: \<^verbatim>\<open>shallowRef(new URLSearchParams(isClient ? window.location.search : ""))\<close>
  and \<^verbatim>\<open>isListeningPopsate: false\<close>.
\<close>

definition init_world :: "bool \<Rightarrow> params \<Rightarrow> ('a, 'b) world" where
  "init_world client loc =
     \<lparr> isClient = client,
       heap = (\<lambda>_. [])(0 := (if client then loc else [])),
       next_obj = 1,
       searchParams = 0,
       isListeningPopsate = False,
       location_search = loc,
       listeners = [],
       next_listener = 0,
       dispose_hooks = [],
       scalars = [],
       arrays = [],
       pending = [],
       nav_log = [] \<rparr>"

text \<open>The entries of the object \<^verbatim>\<open>_internal.searchParams.value\<close> points to.\<close>

definition current :: "('a, 'b) world \<Rightarrow> params" where
  "current w = heap w (searchParams w)"

text \<open>A method call on \<^verbatim>\<open>_internal.searchParams.value\<close> that changes the object itself.\<close>

definition mutate_searchParams :: "(params \<Rightarrow> params) \<Rightarrow> ('a, 'b) world \<Rightarrow> ('a, 'b) world" where
  "mutate_searchParams f w = w\<lparr>heap := (heap w)(searchParams w := f (heap w (searchParams w)))\<rparr>"

section \<open>The watchers on the shared ref\<close>

text \<open>\<^verbatim>\<open>isEqualArrays\<close>: the length test, then the index loop.\<close>

function isEqualArrays_from :: "nat \<Rightarrow> 'b list \<Rightarrow> 'b list \<Rightarrow> bool" where
  "isEqualArrays_from i a b =
     (if i < length a
      then (if a ! i \<noteq> b ! i then False else isEqualArrays_from (Suc i) a b)
      else True)"
  by pat_completeness auto
termination
  by (relation "measure (\<lambda>(i, a, b). length a - i)") auto

declare isEqualArrays_from.simps [simp del]

definition isEqualArrays :: "'b list \<Rightarrow> 'b list \<Rightarrow> bool" where
  "isEqualArrays a b = (if length a \<noteq> length b then False else isEqualArrays_from 0 a b)"

text \<open>The callback of the \<^verbatim>\<open>watch\<close> in \<^verbatim>\<open>useSearchParam\<close>, run on the current entries.\<close>

definition watch_scalar :: "params \<Rightarrow> 'a scalar_binding \<Rightarrow> 'a scalar_binding" where
  "watch_scalar ps b =
     (let newWritableValue = get_param (ref_name b) ps
      in if newWritableValue = writableValue b then b
         else b\<lparr> readableValue := ser_read (ref_serializer b) newWritableValue,
                 writableValue := newWritableValue,
                 triggered := Suc (triggered b) \<rparr>)"

text \<open>The callback of the \<^verbatim>\<open>watch\<close> in \<^verbatim>\<open>useSearchParamArray\<close>.\<close>

definition watch_array :: "params \<Rightarrow> 'b array_binding \<Rightarrow> 'b array_binding" where
  "watch_array ps b =
     (let newWritableValue = getAll (ref_name b) ps
      in if isEqualArrays newWritableValue (writableValue b) then b
         else b\<lparr> readableValue := map (ser_read (ref_serializer b)) newWritableValue,
                 writableValue := newWritableValue,
                 triggered := Suc (triggered b) \<rparr>)"

text \<open>
  \<^verbatim>\<open>triggerRef(_internal.searchParams)\<close>: every running watcher of the shared ref runs its
  callback at once (\<^verbatim>\<open>flush: "sync"\<close>). A watcher on a shallow ref fires on every trigger,
  whether or not the object held by the ref is another one.
\<close>

definition triggerRef :: "('a, 'b) world \<Rightarrow> ('a, 'b) world" where
  "triggerRef w =
     w\<lparr> scalars := map (\<lambda>b. if watching b then watch_scalar (current w) b else b) (scalars w),
        arrays := map (\<lambda>b. if watching b then watch_array (current w) b else b) (arrays w) \<rparr>"

section \<open>The popstate listener\<close>

text \<open>
  \<^verbatim>\<open>onPopstate\<close>: \<^verbatim>\<open>_internal.searchParams.value = new URLSearchParams(window.location.search)\<close>.
  The object is new, so the assignment triggers the ref.
\<close>

definition onPopstate :: "('a, 'b) world \<Rightarrow> error + ('a, 'b) world" where
  "onPopstate w =
     (if isClient w
      then Inr (triggerRef (w\<lparr> heap := (heap w)(next_obj w := location_search w),
                               searchParams := next_obj w,
                               next_obj := Suc (next_obj w) \<rparr>))
      else Inl ReferenceError)"

text \<open>\<^verbatim>\<open>window.addEventListener("popstate", onPopstate)\<close> with a fresh closure.\<close>

definition addEventListener :: "('a, 'b) world \<Rightarrow> error + nat \<times> ('a, 'b) world" where
  "addEventListener w =
     (if isClient w
      then Inr (next_listener w,
                w\<lparr> listeners := listeners w @ [next_listener w],
                   next_listener := Suc (next_listener w) \<rparr>)
      else Inl ReferenceError)"

definition listenPopstate :: "nat option \<Rightarrow> ('a, 'b) world \<Rightarrow> error + ('a, 'b) world" where
  "listenPopstate scope w =
     (if \<not> isClient w \<or> isListeningPopsate w then Inr w
      else case addEventListener (w\<lparr>isListeningPopsate := True\<rparr>) of
             Inl e \<Rightarrow> Inl e
           | Inr (l, w') \<Rightarrow>
               (case scope of
                  Some s \<Rightarrow> Inr (w'\<lparr>dispose_hooks := dispose_hooks w' @ [(s, l)]\<rparr>)
                | None \<Rightarrow> Inr w'))"

text \<open>
  The hook given to \<^verbatim>\<open>onScopeDispose\<close>: \<^verbatim>\<open>window.removeEventListener("popstate", onPopstate)\<close>
  and \<^verbatim>\<open>_internal.isListeningPopsate = false\<close>.
\<close>

definition dispose_hook :: "nat \<Rightarrow> ('a, 'b) world \<Rightarrow> error + ('a, 'b) world" where
  "dispose_hook l w =
     (if isClient w
      then Inr (w\<lparr> listeners := removeAll l (listeners w), isListeningPopsate := False \<rparr>)
      else Inl ReferenceError)"

fun run_hooks :: "nat \<Rightarrow> (nat \<times> nat) list \<Rightarrow> ('a, 'b) world \<Rightarrow> error + ('a, 'b) world" where
  "run_hooks s [] w = Inr w"
| "run_hooks s (h # hs) w =
     (if fst h = s
      then (case dispose_hook (snd h) w of Inl e \<Rightarrow> Inl e | Inr w' \<Rightarrow> run_hooks s hs w')
      else run_hooks s hs w)"

text \<open>
  An effect scope is disposed: the watchers it owns stop, and its \<^verbatim>\<open>onScopeDispose\<close> hooks
  run, once.
\<close>

definition stop_watchers :: "nat \<Rightarrow> ('r, 'a, 'w, 't) binding list \<Rightarrow> ('r, 'a, 'w, 't) binding list" where
  "stop_watchers s bs = map (\<lambda>b. if owner_scope b = Some s then b\<lparr>watching := False\<rparr> else b) bs"

definition disposeScope :: "nat \<Rightarrow> ('a, 'b) world \<Rightarrow> error + ('a, 'b) world" where
  "disposeScope s w =
     run_hooks s (dispose_hooks w)
       (w\<lparr> scalars := stop_watchers s (scalars w),
           arrays := stop_watchers s (arrays w),
           dispose_hooks := filter (\<lambda>h. fst h \<noteq> s) (dispose_hooks w) \<rparr>)"

text \<open>
  The browser traverses the history: the query string becomes \<open>loc\<close> and the window
  dispatches \<^verbatim>\<open>popstate\<close> to each live listener.
\<close>

fun dispatch :: "nat list \<Rightarrow> ('a, 'b) world \<Rightarrow> error + ('a, 'b) world" where
  "dispatch [] w = Inr w"
| "dispatch (l # ls) w = (case onPopstate w of Inl e \<Rightarrow> Inl e | Inr w' \<Rightarrow> dispatch ls w')"

definition popstate :: "params \<Rightarrow> ('a, 'b) world \<Rightarrow> error + ('a, 'b) world" where
  "popstate loc w = dispatch (listeners w) (w\<lparr>location_search := loc\<rparr>)"

section \<open>Navigation\<close>

text \<open>
  \<^verbatim>\<open>defaultNavigate\<close>: the query of the current URL becomes the serialised entries and the
  current history entry is replaced; \<^verbatim>\<open>replaceState\<close> dispatches no \<^verbatim>\<open>popstate\<close>.
\<close>

definition defaultNavigate :: "params \<Rightarrow> ('a, 'b) world \<Rightarrow> error + ('a, 'b) world" where
  "defaultNavigate sp w =
     (if isClient w then Inr (w\<lparr>location_search := sp\<rparr>) else Inl ReferenceError)"

definition call_navigate :: "navigate \<Rightarrow> params \<Rightarrow> ('a, 'b) world \<Rightarrow> error + ('a, 'b) world" where
  "call_navigate nav sp w =
     (case (case nav of DefaultNavigate \<Rightarrow> defaultNavigate sp w | CustomNavigate k \<Rightarrow> Inr w) of
        Inl e \<Rightarrow> Inl e
      | Inr w' \<Rightarrow> Inr (w'\<lparr>nav_log := nav_log w' @ [(nav, sp)]\<rparr>))"

text \<open>\<^verbatim>\<open>nextTick(() => navigate(toRaw(_internal.searchParams.value)))\<close> queues the call.\<close>

definition nextTick :: "navigate \<Rightarrow> ('a, 'b) world \<Rightarrow> ('a, 'b) world" where
  "nextTick nav w = w\<lparr>pending := pending w @ [nav]\<rparr>"

text \<open>
  The flush: each queued callback runs in order and reads the shared ref when it runs. The
  model stops at the first callback that fails.
\<close>

fun run_ticks :: "navigate list \<Rightarrow> ('a, 'b) world \<Rightarrow> error + ('a, 'b) world" where
  "run_ticks [] w = Inr w"
| "run_ticks (nav # navs) w =
     (case call_navigate nav (current w) w of Inl e \<Rightarrow> Inl e | Inr w' \<Rightarrow> run_ticks navs w')"

definition flush :: "('a, 'b) world \<Rightarrow> error + ('a, 'b) world" where
  "flush w = run_ticks (pending w) (w\<lparr>pending := []\<rparr>)"

section \<open>useSearchParam\<close>

text \<open>
  The default serializer of \<^verbatim>\<open>useSearchParam\<close> (the two casts) and the default of
  \<^verbatim>\<open>options.navigate\<close>.
\<close>

definition default_serializer :: "(string option, string option) serializer" where
  "default_serializer = \<lparr> ser_read = (\<lambda>v. v), ser_write = (\<lambda>v. v) \<rparr>"

definition navigate_or_default :: "navigate option \<Rightarrow> navigate" where
  "navigate_or_default nav = (case nav of None \<Rightarrow> DefaultNavigate | Some f \<Rightarrow> f)"

text \<open>
  \<^verbatim>\<open>useSearchParam(name, {navigate, serializer})\<close>, called inside the effect scope \<open>scope\<close>
  (\<open>None\<close> outside every scope). The result is the index of the new ref and the world.
\<close>

definition useSearchParam ::
  "string \<Rightarrow> navigate option \<Rightarrow> (string option, 'a) serializer \<Rightarrow> nat option \<Rightarrow> ('a, 'b) world
     \<Rightarrow> error + nat \<times> ('a, 'b) world" where
  "useSearchParam name nav ser scope w =
     (let wv = get_param name (current w);
          rv = ser_read ser wv;
          b = \<lparr> ref_name = name, ref_navigate = navigate_or_default nav, ref_serializer = ser,
                writableValue = wv, readableValue = rv,
                watching = isClient w, owner_scope = scope, triggered = 0 \<rparr>
      in case listenPopstate scope (w\<lparr>scalars := scalars w @ [b]\<rparr>) of
           Inl e \<Rightarrow> Inl e
         | Inr w' \<Rightarrow> Inr (length (scalars w), w'))"

text \<open>
  \<^verbatim>\<open>get()\<close> of the returned ref (\<^verbatim>\<open>track()\<close> only records who reads). It is meant for the
  index of a ref that exists.
\<close>

definition get_value :: "nat \<Rightarrow> ('a, 'b) world \<Rightarrow> 'a" where
  "get_value i w = readableValue (scalars w ! i)"

text \<open>\<^verbatim>\<open>_trigger()\<close> of the ref with index \<open>i\<close>.\<close>

definition trigger_scalar :: "nat \<Rightarrow> ('a, 'b) world \<Rightarrow> ('a, 'b) world" where
  "trigger_scalar i w =
     w\<lparr>scalars := (scalars w)[i := (scalars w ! i)\<lparr>triggered := Suc (triggered (scalars w ! i))\<rparr>]\<rparr>"

text \<open>
  \<^verbatim>\<open>set(newReadableValue)\<close> of the returned ref. An index that denotes no ref does not
  occur in the source; the model leaves the world as it is there.
\<close>

definition set_value :: "nat \<Rightarrow> 'a \<Rightarrow> ('a, 'b) world \<Rightarrow> ('a, 'b) world" where
  "set_value i newReadableValue w =
     (if length (scalars w) \<le> i then w
      else
        let b = scalars w ! i;
            newWritableValue = ser_write (ref_serializer b) newReadableValue
        in if newWritableValue = writableValue b then w
           else
             let w1 = w\<lparr>scalars := (scalars w)[i := b\<lparr> readableValue := newReadableValue,
                                                       writableValue := newWritableValue \<rparr>]\<rparr>;
                 w2 = (case newWritableValue of
                         Some s \<Rightarrow> mutate_searchParams (set_param (ref_name b) s) w1
                       | None \<Rightarrow> mutate_searchParams (delete_param (ref_name b)) w1);
                 w3 = triggerRef (trigger_scalar i w2)
             in if isClient w3 then nextTick (ref_navigate b) w3 else w3)"

section \<open>useSearchParamArray\<close>

definition default_item_serializer :: "(string, string) serializer" where
  "default_item_serializer = \<lparr> ser_read = (\<lambda>v. v), ser_write = (\<lambda>v. v) \<rparr>"

definition useSearchParamArray ::
  "string \<Rightarrow> navigate option \<Rightarrow> (string, 'b) serializer \<Rightarrow> nat option \<Rightarrow> ('a, 'b) world
     \<Rightarrow> error + nat \<times> ('a, 'b) world" where
  "useSearchParamArray name nav ser scope w =
     (let wv = getAll name (current w);
          rv = map (ser_read ser) wv;
          b = \<lparr> ref_name = name, ref_navigate = navigate_or_default nav, ref_serializer = ser,
                writableValue = wv, readableValue = rv,
                watching = isClient w, owner_scope = scope, triggered = 0 \<rparr>
      in case listenPopstate scope (w\<lparr>arrays := arrays w @ [b]\<rparr>) of
           Inl e \<Rightarrow> Inl e
         | Inr w' \<Rightarrow> Inr (length (arrays w), w'))"

definition get_array :: "nat \<Rightarrow> ('a, 'b) world \<Rightarrow> 'b list" where
  "get_array i w = readableValue (arrays w ! i)"

definition trigger_array :: "nat \<Rightarrow> ('a, 'b) world \<Rightarrow> ('a, 'b) world" where
  "trigger_array i w =
     w\<lparr>arrays := (arrays w)[i := (arrays w ! i)\<lparr>triggered := Suc (triggered (arrays w ! i))\<rparr>]\<rparr>"

text \<open>The loop \<^verbatim>\<open>for (const value of newWritableValue) append(name, value)\<close>.\<close>

fun append_all :: "string \<Rightarrow> string list \<Rightarrow> params \<Rightarrow> params" where
  "append_all name [] ps = ps"
| "append_all name (v # vs) ps = append_all name vs (append_param name v ps)"

definition set_array :: "nat \<Rightarrow> 'b list \<Rightarrow> ('a, 'b) world \<Rightarrow> ('a, 'b) world" where
  "set_array i newReadableValue w =
     (if length (arrays w) \<le> i then w
      else
        let b = arrays w ! i;
            newWritableValue = map (ser_write (ref_serializer b)) newReadableValue
        in if isEqualArrays newWritableValue (writableValue b) then w
           else
             let w1 = w\<lparr>arrays := (arrays w)[i := b\<lparr> readableValue := newReadableValue,
                                                     writableValue := newWritableValue \<rparr>]\<rparr>;
                 w2 = mutate_searchParams (delete_param (ref_name b)) w1;
                 w3 = mutate_searchParams (append_all (ref_name b) newWritableValue) w2;
                 w4 = triggerRef (trigger_array i w3)
             in if isClient w4 then nextTick (ref_navigate b) w4 else w4)"

section \<open>The setters with the platform call left open\<close>

text \<open>
  The statements of the two setters after their guard, with the calls of \<^verbatim>\<open>set\<close>,
  \<^verbatim>\<open>delete\<close> and \<^verbatim>\<open>append\<close> on the held object replaced by a function \<open>f\<close> on its entries.
  A URLSearchParams object converts every string it is given to a well-formed one (a lone
  surrogate becomes U+FFFD), so what it holds after \<^verbatim>\<open>set(name, s)\<close> need not be \<open>s\<close>: the
  parameter \<open>f\<close> stands for whatever the platform's calls leave in the object.
\<close>

definition assign_scalar ::
  "nat \<Rightarrow> 'a \<Rightarrow> (params \<Rightarrow> params) \<Rightarrow> ('a, 'b) world \<Rightarrow> ('a, 'b) world" where
  "assign_scalar i newReadableValue f w =
     (let b = scalars w ! i;
          newWritableValue = ser_write (ref_serializer b) newReadableValue;
          w1 = w\<lparr>scalars := (scalars w)[i := b\<lparr> readableValue := newReadableValue,
                                                    writableValue := newWritableValue \<rparr>]\<rparr>;
          w2 = mutate_searchParams f w1;
          w3 = triggerRef (trigger_scalar i w2)
      in if isClient w3 then nextTick (ref_navigate b) w3 else w3)"

definition assign_array ::
  "nat \<Rightarrow> 'b list \<Rightarrow> (params \<Rightarrow> params) \<Rightarrow> ('a, 'b) world \<Rightarrow> ('a, 'b) world" where
  "assign_array i newReadableValue f w =
     (let b = arrays w ! i;
          newWritableValue = map (ser_write (ref_serializer b)) newReadableValue;
          w1 = w\<lparr>arrays := (arrays w)[i := b\<lparr> readableValue := newReadableValue,
                                                  writableValue := newWritableValue \<rparr>]\<rparr>;
          w2 = mutate_searchParams f w1;
          w3 = triggerRef (trigger_array i w2)
      in if isClient w3 then nextTick (ref_navigate b) w3 else w3)"

text \<open>What the calls of the model's URLSearchParams do to the held object in each setter.\<close>

definition scalar_calls :: "string \<Rightarrow> string option \<Rightarrow> params \<Rightarrow> params" where
  "scalar_calls name newWritableValue ps =
     (case newWritableValue of
        Some s \<Rightarrow> set_param name s ps
      | None \<Rightarrow> delete_param name ps)"

definition array_calls :: "string \<Rightarrow> string list \<Rightarrow> params \<Rightarrow> params" where
  "array_calls name newWritableValue ps = append_all name newWritableValue (delete_param name ps)"

section \<open>What an assignment leaves in the shared object\<close>

text \<open>
  The entries of the shared object after the \<^verbatim>\<open>set\<close>/\<^verbatim>\<open>delete\<close> branch of a scalar ref's
  setter, and after the \<^verbatim>\<open>delete\<close> and the \<^verbatim>\<open>append\<close> loop of an array ref's setter.
\<close>

definition scalar_written :: "nat \<Rightarrow> 'a \<Rightarrow> ('a, 'b) world \<Rightarrow> params" where
  "scalar_written i v w =
     (case ser_write (ref_serializer (scalars w ! i)) v of
        Some s \<Rightarrow> set_param (ref_name (scalars w ! i)) s (current w)
      | None \<Rightarrow> delete_param (ref_name (scalars w ! i)) (current w))"

definition array_written :: "nat \<Rightarrow> 'b list \<Rightarrow> ('a, 'b) world \<Rightarrow> params" where
  "array_written i vs w =
     append_all (ref_name (arrays w ! i)) (map (ser_write (ref_serializer (arrays w ! i))) vs)
       (delete_param (ref_name (arrays w ! i)) (current w))"

section \<open>Runs of the library\<close>

text \<open>
  What a caller and the browser can do: create a ref of either kind inside a scope, assign
  to a ref, traverse the history, dispose a scope, and let the queued callbacks run.
\<close>

datatype ('a, 'b) operation =
    UseSearchParam string "navigate option" "(string option, 'a) serializer" "nat option"
  | UseSearchParamArray string "navigate option" "(string, 'b) serializer" "nat option"
  | SetValue nat 'a
  | SetArray nat "'b list"
  | Popstate params
  | DisposeScope nat
  | Flush

fun step :: "('a, 'b) operation \<Rightarrow> ('a, 'b) world \<Rightarrow> error + ('a, 'b) world" where
  "step (UseSearchParam name nav ser scope) w =
     (case useSearchParam name nav ser scope w of Inl e \<Rightarrow> Inl e | Inr r \<Rightarrow> Inr (snd r))"
| "step (UseSearchParamArray name nav ser scope) w =
     (case useSearchParamArray name nav ser scope w of Inl e \<Rightarrow> Inl e | Inr r \<Rightarrow> Inr (snd r))"
| "step (SetValue i v) w = Inr (set_value i v w)"
| "step (SetArray i vs) w = Inr (set_array i vs w)"
| "step (Popstate loc) w = popstate loc w"
| "step (DisposeScope s) w = disposeScope s w"
| "step Flush w = flush w"

fun run :: "('a, 'b) operation list \<Rightarrow> ('a, 'b) world \<Rightarrow> error + ('a, 'b) world" where
  "run [] w = Inr w"
| "run (x # xs) w = (case step x w of Inl e \<Rightarrow> Inl e | Inr w' \<Rightarrow> run xs w')"

text \<open>The worlds the library can be in: a module load followed by a run.\<close>

inductive reachable :: "('a, 'b) world \<Rightarrow> bool" where
  reachable_init: "reachable (init_world client loc)"
| reachable_step: "reachable w \<Longrightarrow> step x w = Inr w' \<Longrightarrow> reachable w'"

text \<open>Several calls of \<^verbatim>\<open>listenPopstate\<close> in a row, each from inside its own scope.\<close>

fun listen_calls :: "nat option list \<Rightarrow> ('a, 'b) world \<Rightarrow> error + ('a, 'b) world" where
  "listen_calls [] w = Inr w"
| "listen_calls (scope # scopes) w =
     (case listenPopstate scope w of Inl e \<Rightarrow> Inl e | Inr w' \<Rightarrow> listen_calls scopes w')"

text \<open>
  The flag and the window agree: the flag is set exactly when one listener is live, and a
  disposal hook exists only for that listener.
\<close>

definition listener_inv :: "('a, 'b) world \<Rightarrow> bool" where
  "listener_inv w =
     (if isListeningPopsate w
      then isClient w \<and> length (listeners w) = 1 \<and> length (dispose_hooks w) \<le> 1
           \<and> set (map snd (dispose_hooks w)) \<subseteq> set (listeners w)
      else listeners w = [] \<and> dispose_hooks w = [])"

text \<open>A ref whose watcher runs holds, as its raw cache, what the shared ref holds for its name.\<close>

definition coherent :: "('a, 'b) world \<Rightarrow> bool" where
  "coherent w =
     ((\<forall>b \<in> set (scalars w). watching b \<longrightarrow> writableValue b = get_param (ref_name b) (current w))
      \<and> (\<forall>b \<in> set (arrays w). watching b \<longrightarrow> writableValue b = getAll (ref_name b) (current w)))"

text \<open>
  A serializer a caller may supply: a missing parameter reads as \<open>''all''\<close>, and an empty
  string is written as a missing parameter.
\<close>

definition fallback_serializer :: "(string option, string) serializer" where
  "fallback_serializer =
     \<lparr> ser_read = (\<lambda>r. case r of None \<Rightarrow> ''all'' | Some s \<Rightarrow> s),
       ser_write = (\<lambda>v. if v = [] then None else Some v) \<rparr>"

section \<open>Properties\<close>


lemma isEqualArrays_from_iff:
  "length a = length b \<Longrightarrow> isEqualArrays_from i a b = (\<forall>j. i \<le> j \<and> j < length a \<longrightarrow> a ! j = b ! j)"
proof (induction i a b rule: isEqualArrays_from.induct)
  case (1 i a b)
  show ?case
  proof (cases "i < length a")
    case False
    then show ?thesis by (subst isEqualArrays_from.simps) auto
  next
    case True
    show ?thesis
    proof (cases "a ! i = b ! i")
      case False
      with True show ?thesis by (subst isEqualArrays_from.simps) auto
    next
      case eq: True
      have "isEqualArrays_from i a b = isEqualArrays_from (Suc i) a b"
        using True eq by (subst isEqualArrays_from.simps) simp
      also have "\<dots> = (\<forall>j. Suc i \<le> j \<and> j < length a \<longrightarrow> a ! j = b ! j)"
        using "1.IH" [OF True _ "1.prems"] eq by simp
      also have "\<dots> = (\<forall>j. i \<le> j \<and> j < length a \<longrightarrow> a ! j = b ! j)"
      proof (intro iffI allI impI)
        fix j assume h: "\<forall>j. Suc i \<le> j \<and> j < length a \<longrightarrow> a ! j = b ! j" and j: "i \<le> j \<and> j < length a"
        show "a ! j = b ! j"
        proof (cases "j = i")
          case True
          with eq show ?thesis by simp
        next
          case False
          with j have "Suc i \<le> j \<and> j < length a" by simp
          with h show ?thesis by blast
        qed
      next
        fix j assume h: "\<forall>j. i \<le> j \<and> j < length a \<longrightarrow> a ! j = b ! j" and j: "Suc i \<le> j \<and> j < length a"
        from j have "i \<le> j \<and> j < length a" by simp
        with h show "a ! j = b ! j" by blast
      qed
      finally show ?thesis .
    qed
  qed
qed

lemma isEqualArrays_iff: "isEqualArrays a b = (a = b)"
  by (auto simp: isEqualArrays_def isEqualArrays_from_iff list_eq_iff_nth_eq)

lemma get_param_set_same: "get_param n (set_param n v ps) = Some v"
  by (induction ps) (auto simp: get_param_def)

lemma get_param_delete_other: "m \<noteq> n \<Longrightarrow> get_param m (delete_param n ps) = get_param m ps"
  by (induction ps) (auto simp: get_param_def delete_param_def)

lemma get_param_set_other: "m \<noteq> n \<Longrightarrow> get_param m (set_param n v ps) = get_param m ps"
  by (induction ps) (auto simp: get_param_def get_param_delete_other[unfolded get_param_def])

lemma get_param_delete_same: "get_param n (delete_param n ps) = None"
  by (induction ps) (auto simp: get_param_def delete_param_def)

lemma getAll_delete_same: "getAll n (delete_param n ps) = []"
  by (induction ps) (auto simp: getAll_def delete_param_def)

lemma getAll_delete_other: "m \<noteq> n \<Longrightarrow> getAll m (delete_param n ps) = getAll m ps"
  by (induction ps) (auto simp: getAll_def delete_param_def)

lemma getAll_set_same: "getAll n (set_param n v ps) = [v]"
  by (induction ps) (auto simp: getAll_def getAll_delete_same[unfolded getAll_def])

lemma getAll_set_other: "m \<noteq> n \<Longrightarrow> getAll m (set_param n v ps) = getAll m ps"
  by (induction ps) (auto simp: getAll_def getAll_delete_other[unfolded getAll_def])

lemma append_all_eq: "append_all n vs ps = ps @ map (Pair n) vs"
  by (induction vs arbitrary: ps) (auto simp: append_param_def)

lemma getAll_append_all_same: "getAll n (append_all n vs ps) = getAll n ps @ vs"
  by (simp add: append_all_eq getAll_def comp_def)

lemma getAll_append_all_other: "m \<noteq> n \<Longrightarrow> getAll m (append_all n vs ps) = getAll m ps"
  by (simp add: append_all_eq getAll_def comp_def)

lemma get_param_append_all_other: "m \<noteq> n \<Longrightarrow> get_param m (append_all n vs ps) = get_param m ps"
  by (induction vs arbitrary: ps) (auto simp: get_param_def append_param_def map_add_def split: option.splits)

lemma get_param_getAll: "get_param n ps = (case getAll n ps of [] \<Rightarrow> None | v # _ \<Rightarrow> Some v)"
  by (induction ps) (auto simp: get_param_def getAll_def)

subsection \<open>The parts of one assignment\<close>

lemma triggerRef_fields:
  "current (triggerRef w) = current w"
  "heap (triggerRef w) = heap w"
  "searchParams (triggerRef w) = searchParams w"
  "next_obj (triggerRef w) = next_obj w"
  "isClient (triggerRef w) = isClient w"
  "pending (triggerRef w) = pending w"
  "listeners (triggerRef w) = listeners w"
  "isListeningPopsate (triggerRef w) = isListeningPopsate w"
  "dispose_hooks (triggerRef w) = dispose_hooks w"
  "nav_log (triggerRef w) = nav_log w"
  "location_search (triggerRef w) = location_search w"
  "length (scalars (triggerRef w)) = length (scalars w)"
  "length (arrays (triggerRef w)) = length (arrays w)"
  by (simp_all add: triggerRef_def current_def)

lemma watch_scalar_same: "get_param (ref_name b) ps = writableValue b \<Longrightarrow> watch_scalar ps b = b"
  by (simp add: watch_scalar_def)

lemma watch_array_same: "getAll (ref_name b) ps = writableValue b \<Longrightarrow> watch_array ps b = b"
  by (simp add: watch_array_def isEqualArrays_iff)

lemma set_value_noop:
  "ser_write (ref_serializer (scalars w ! i)) v = writableValue (scalars w ! i) \<Longrightarrow> set_value i v w = w"
  by (simp add: set_value_def Let_def)

lemma set_value_current:
  assumes "i < length (scalars w)"
    and "ser_write (ref_serializer (scalars w ! i)) v \<noteq> writableValue (scalars w ! i)"
  shows "current (set_value i v w) = scalar_written i v w"
  using assms
  by (simp add: set_value_def Let_def scalar_written_def nextTick_def triggerRef_def
      trigger_scalar_def mutate_searchParams_def current_def split: option.splits)

lemma get_param_scalar_written_same:
  "get_param (ref_name (scalars w ! i)) (scalar_written i v w) = ser_write (ref_serializer (scalars w ! i)) v"
  by (simp add: scalar_written_def get_param_set_same get_param_delete_same split: option.splits)

lemma set_value_scalars:
  assumes "i < length (scalars w)"
    and "ser_write (ref_serializer (scalars w ! i)) v \<noteq> writableValue (scalars w ! i)"
  shows "scalars (set_value i v w) =
           map (\<lambda>b. if watching b then watch_scalar (scalar_written i v w) b else b)
             ((scalars w)[i := (scalars w ! i)\<lparr> readableValue := v,
                 writableValue := ser_write (ref_serializer (scalars w ! i)) v,
                 triggered := Suc (triggered (scalars w ! i)) \<rparr>])"
  using assms
  by (simp add: set_value_def Let_def scalar_written_def nextTick_def triggerRef_def
      trigger_scalar_def mutate_searchParams_def current_def split: option.splits)

lemma set_value_arrays:
  assumes "i < length (scalars w)"
    and "ser_write (ref_serializer (scalars w ! i)) v \<noteq> writableValue (scalars w ! i)"
  shows "arrays (set_value i v w) =
           map (\<lambda>b. if watching b then watch_array (scalar_written i v w) b else b) (arrays w)"
  using assms
  by (simp add: set_value_def Let_def scalar_written_def nextTick_def triggerRef_def
      trigger_scalar_def mutate_searchParams_def current_def split: option.splits)

lemma set_value_own:
  assumes "i < length (scalars w)"
    and "ser_write (ref_serializer (scalars w ! i)) v \<noteq> writableValue (scalars w ! i)"
  shows "scalars (set_value i v w) ! i =
           (scalars w ! i)\<lparr> readableValue := v,
                 writableValue := ser_write (ref_serializer (scalars w ! i)) v,
                 triggered := Suc (triggered (scalars w ! i)) \<rparr>"
  using assms
  by (simp add: set_value_scalars watch_scalar_same get_param_scalar_written_same)

lemma set_value_frame:
  "searchParams (set_value i v w) = searchParams w"
  "next_obj (set_value i v w) = next_obj w"
  "isClient (set_value i v w) = isClient w"
  "listeners (set_value i v w) = listeners w"
  "isListeningPopsate (set_value i v w) = isListeningPopsate w"
  "dispose_hooks (set_value i v w) = dispose_hooks w"
  "nav_log (set_value i v w) = nav_log w"
  "location_search (set_value i v w) = location_search w"
  "length (scalars (set_value i v w)) = length (scalars w)"
  "length (arrays (set_value i v w)) = length (arrays w)"
  by (simp_all add: set_value_def Let_def nextTick_def triggerRef_def
      trigger_scalar_def mutate_searchParams_def split: option.splits)


lemma set_value_pending:
  assumes "i < length (scalars w)"
    and "ser_write (ref_serializer (scalars w ! i)) v \<noteq> writableValue (scalars w ! i)"
  shows "pending (set_value i v w) =
           (if isClient w then pending w @ [ref_navigate (scalars w ! i)] else pending w)"
  using assms
  by (simp add: set_value_def Let_def nextTick_def triggerRef_def
      trigger_scalar_def mutate_searchParams_def split: option.splits)

lemma set_array_noop:
  "map (ser_write (ref_serializer (arrays w ! i))) vs = writableValue (arrays w ! i) \<Longrightarrow> set_array i vs w = w"
  by (simp add: set_array_def Let_def isEqualArrays_iff)

lemma set_array_current:
  assumes "i < length (arrays w)"
    and "map (ser_write (ref_serializer (arrays w ! i))) vs \<noteq> writableValue (arrays w ! i)"
  shows "current (set_array i vs w) = array_written i vs w"
  using assms
  by (simp add: set_array_def Let_def array_written_def nextTick_def triggerRef_def
      trigger_array_def mutate_searchParams_def current_def isEqualArrays_iff)

lemma getAll_array_written_same:
  "getAll (ref_name (arrays w ! i)) (array_written i vs w) = map (ser_write (ref_serializer (arrays w ! i))) vs"
  by (simp add: array_written_def getAll_append_all_same getAll_delete_same)

lemma set_array_arrays:
  assumes "i < length (arrays w)"
    and "map (ser_write (ref_serializer (arrays w ! i))) vs \<noteq> writableValue (arrays w ! i)"
  shows "arrays (set_array i vs w) =
           map (\<lambda>b. if watching b then watch_array (array_written i vs w) b else b)
             ((arrays w)[i := (arrays w ! i)\<lparr> readableValue := vs,
                 writableValue := map (ser_write (ref_serializer (arrays w ! i))) vs,
                 triggered := Suc (triggered (arrays w ! i)) \<rparr>])"
  using assms
  by (simp add: set_array_def Let_def array_written_def nextTick_def triggerRef_def
      trigger_array_def mutate_searchParams_def current_def isEqualArrays_iff)

lemma set_array_scalars:
  assumes "i < length (arrays w)"
    and "map (ser_write (ref_serializer (arrays w ! i))) vs \<noteq> writableValue (arrays w ! i)"
  shows "scalars (set_array i vs w) =
           map (\<lambda>b. if watching b then watch_scalar (array_written i vs w) b else b) (scalars w)"
  using assms
  by (simp add: set_array_def Let_def array_written_def nextTick_def triggerRef_def
      trigger_array_def mutate_searchParams_def current_def isEqualArrays_iff)

lemma set_array_own:
  assumes "i < length (arrays w)"
    and "map (ser_write (ref_serializer (arrays w ! i))) vs \<noteq> writableValue (arrays w ! i)"
  shows "arrays (set_array i vs w) ! i =
           (arrays w ! i)\<lparr> readableValue := vs,
                 writableValue := map (ser_write (ref_serializer (arrays w ! i))) vs,
                 triggered := Suc (triggered (arrays w ! i)) \<rparr>"
  using assms
  by (simp add: set_array_arrays watch_array_same getAll_array_written_same)

lemma set_array_frame:
  "searchParams (set_array i vs w) = searchParams w"
  "next_obj (set_array i vs w) = next_obj w"
  "isClient (set_array i vs w) = isClient w"
  "listeners (set_array i vs w) = listeners w"
  "isListeningPopsate (set_array i vs w) = isListeningPopsate w"
  "dispose_hooks (set_array i vs w) = dispose_hooks w"
  "nav_log (set_array i vs w) = nav_log w"
  "location_search (set_array i vs w) = location_search w"
  "length (scalars (set_array i vs w)) = length (scalars w)"
  "length (arrays (set_array i vs w)) = length (arrays w)"
  by (simp_all add: set_array_def Let_def nextTick_def triggerRef_def
      trigger_array_def mutate_searchParams_def)


lemma set_array_pending:
  assumes "i < length (arrays w)"
    and "map (ser_write (ref_serializer (arrays w ! i))) vs \<noteq> writableValue (arrays w ! i)"
  shows "pending (set_array i vs w) =
           (if isClient w then pending w @ [ref_navigate (arrays w ! i)] else pending w)"
  using assms
  by (simp add: set_array_def Let_def nextTick_def triggerRef_def
      trigger_array_def mutate_searchParams_def isEqualArrays_iff)

lemmas run_defs =
  init_world_def useSearchParam_def useSearchParamArray_def listenPopstate_def addEventListener_def
  navigate_or_default_def current_def default_serializer_def default_item_serializer_def
  get_param_def getAll_def Let_def

text \<open>
  Claim C6. Assigning a value whose serialized form equals the cached raw value (for an
  array ref: \<^verbatim>\<open>isEqualArrays\<close> of the serialized list and the cached list) changes nothing
  at all: the world after the assignment is the world before it, so the shared object,
  both caches, the listener flag, the notification counts and the queue of navigation
  calls are all as they were.
\<close>

theorem set_equal_raw_is_noop:
  "(i < length (scalars w)
      \<and> ser_write (ref_serializer (scalars w ! i)) v = writableValue (scalars w ! i)
      \<longrightarrow> set_value i v w = w)
   \<and> (j < length (arrays w)
      \<and> isEqualArrays (map (ser_write (ref_serializer (arrays w ! j))) vs) (writableValue (arrays w ! j))
      \<longrightarrow> set_array j vs w = w)"
  by (simp add: set_value_noop set_array_noop isEqualArrays_iff)

text \<open>
  Claim C6 at a page loaded with \<^verbatim>\<open>?foo=bar&tags=a&tags=b\<close>: assigning \<^verbatim>\<open>"bar"\<close> to the ref
  of \<^verbatim>\<open>foo\<close> and \<^verbatim>\<open>["a", "b"]\<close> to the ref of \<^verbatim>\<open>tags\<close> leaves the world unchanged.
\<close>

theorem set_equal_raw_is_noop_witness:
  "case run [UseSearchParam ''foo'' None default_serializer (Some 1),
             UseSearchParamArray ''tags'' None default_item_serializer (Some 1)]
            (init_world True [(''foo'', ''bar''), (''tags'', ''a''), (''tags'', ''b'')]) of
     Inl e \<Rightarrow> False
   | Inr w \<Rightarrow> set_value 0 (Some ''bar'') w = w \<and> set_array 0 [''a'', ''b''] w = w"
proof -
  obtain w :: "(string option, string) world" where r: "run [UseSearchParam ''foo'' None default_serializer (Some 1),
             UseSearchParamArray ''tags'' None default_item_serializer (Some 1)]
            (init_world True [(''foo'', ''bar''), (''tags'', ''a''), (''tags'', ''b'')]) = Inr w"
    and s: "0 < length (scalars w)" "ser_write (ref_serializer (scalars w ! 0)) (Some ''bar'') = writableValue (scalars w ! 0)"
    and a: "0 < length (arrays w)" "isEqualArrays (map (ser_write (ref_serializer (arrays w ! 0))) [''a'', ''b'']) (writableValue (arrays w ! 0))"
    by (simp add: run_defs isEqualArrays_iff)
  from set_equal_raw_is_noop [of 0 w "Some ''bar''" 0 "[''a'', ''b'']"] s a
  have "set_value 0 (Some ''bar'') w = w \<and> set_array 0 [''a'', ''b''] w = w" by simp
  then show ?thesis unfolding r by simp
qed

lemma getAll_scalar_written_other:
  "m \<noteq> ref_name (scalars w ! i) \<Longrightarrow> getAll m (scalar_written i v w) = getAll m (current w)"
  by (simp add: scalar_written_def getAll_set_other getAll_delete_other split: option.splits)

lemma get_param_scalar_written_other:
  "m \<noteq> ref_name (scalars w ! i) \<Longrightarrow> get_param m (scalar_written i v w) = get_param m (current w)"
  by (simp add: scalar_written_def get_param_set_other get_param_delete_other split: option.splits)

lemma getAll_array_written_other:
  "m \<noteq> ref_name (arrays w ! i) \<Longrightarrow> getAll m (array_written i vs w) = getAll m (current w)"
  by (simp add: array_written_def getAll_append_all_other getAll_delete_other)

lemma get_param_array_written_other:
  "m \<noteq> ref_name (arrays w ! i) \<Longrightarrow> get_param m (array_written i vs w) = get_param m (current w)"
  by (simp add: array_written_def get_param_append_all_other get_param_delete_other)

text \<open>
  Claim C10. An assignment to a scalar or array ref with name \<open>n\<close> leaves, for every other
  name \<open>m\<close>, the values of \<open>m\<close> in the shared object as they were, in the same order.
\<close>

theorem write_touches_only_own_key:
  "(i < length (scalars w) \<and> m \<noteq> ref_name (scalars w ! i)
      \<longrightarrow> getAll m (current (set_value i v w)) = getAll m (current w))
   \<and> (j < length (arrays w) \<and> m \<noteq> ref_name (arrays w ! j)
      \<longrightarrow> getAll m (current (set_array j vs w)) = getAll m (current w))"
proof (intro conjI impI)
  assume h: "i < length (scalars w) \<and> m \<noteq> ref_name (scalars w ! i)"
  show "getAll m (current (set_value i v w)) = getAll m (current w)"
  proof (cases "ser_write (ref_serializer (scalars w ! i)) v = writableValue (scalars w ! i)")
    case True
    then show ?thesis by (simp add: set_value_noop)
  next
    case False
    with h show ?thesis by (simp add: set_value_current getAll_scalar_written_other)
  qed
next
  assume h: "j < length (arrays w) \<and> m \<noteq> ref_name (arrays w ! j)"
  show "getAll m (current (set_array j vs w)) = getAll m (current w)"
  proof (cases "map (ser_write (ref_serializer (arrays w ! j))) vs = writableValue (arrays w ! j)")
    case True
    then show ?thesis by (simp add: set_array_noop)
  next
    case False
    with h show ?thesis by (simp add: set_array_current getAll_array_written_other)
  qed
qed

text \<open>
  Claim C10 at \<^verbatim>\<open>?page=2&foo=bar&tags=a&page=3\<close>: deleting \<^verbatim>\<open>foo\<close> and replacing \<^verbatim>\<open>tags\<close>
  both leave the values of \<^verbatim>\<open>page\<close> at \<^verbatim>\<open>["2", "3"]\<close>.
\<close>

theorem write_touches_only_own_key_witness:
  "case run [UseSearchParam ''foo'' None default_serializer (Some 1),
             UseSearchParamArray ''tags'' None default_item_serializer (Some 1)]
            (init_world True [(''page'', ''2''), (''foo'', ''bar''), (''tags'', ''a''), (''page'', ''3'')]) of
     Inl e \<Rightarrow> False
   | Inr w \<Rightarrow>
       getAll ''page'' (current w) = [''2'', ''3'']
       \<and> getAll ''page'' (current (set_value 0 None w)) = [''2'', ''3'']
       \<and> getAll ''page'' (current (set_array 0 [''c''] w)) = [''2'', ''3'']"
proof -
  obtain w :: "(string option, string) world" where
    r: "run [UseSearchParam ''foo'' None default_serializer (Some 1),
             UseSearchParamArray ''tags'' None default_item_serializer (Some 1)]
            (init_world True [(''page'', ''2''), (''foo'', ''bar''), (''tags'', ''a''), (''page'', ''3'')]) = Inr w"
    and s: "0 < length (scalars w) \<and> ''page'' \<noteq> ref_name (scalars w ! 0)"
    and a: "0 < length (arrays w) \<and> ''page'' \<noteq> ref_name (arrays w ! 0)"
    and c: "getAll ''page'' (current w) = [''2'', ''3'']"
    by (simp add: run_defs)
  from write_touches_only_own_key [of 0 w "''page''" None 0 "[''c'']"] s a c
  have "getAll ''page'' (current (set_value 0 None w)) = [''2'', ''3'']
       \<and> getAll ''page'' (current (set_array 0 [''c''] w)) = [''2'', ''3'']" by simp
  with c show ?thesis unfolding r by simp
qed



subsection \<open>The flush\<close>

lemma call_navigate_client:
  "isClient w \<Longrightarrow>
     \<exists>w'. call_navigate nav sp w = Inr w' \<and> isClient w'
       \<and> scalars w' = scalars w \<and> arrays w' = arrays w
       \<and> heap w' = heap w \<and> searchParams w' = searchParams w \<and> next_obj w' = next_obj w
       \<and> listeners w' = listeners w \<and> isListeningPopsate w' = isListeningPopsate w
       \<and> dispose_hooks w' = dispose_hooks w \<and> pending w' = pending w"
  by (cases nav) (simp_all add: call_navigate_def defaultNavigate_def)

lemma run_ticks_client:
  "isClient w \<Longrightarrow>
     \<exists>w'. run_ticks navs w = Inr w' \<and> isClient w'
       \<and> scalars w' = scalars w \<and> arrays w' = arrays w
       \<and> heap w' = heap w \<and> searchParams w' = searchParams w \<and> next_obj w' = next_obj w
       \<and> listeners w' = listeners w \<and> isListeningPopsate w' = isListeningPopsate w
       \<and> dispose_hooks w' = dispose_hooks w \<and> pending w' = pending w"
proof (induction navs arbitrary: w)
  case Nil
  then show ?case by simp
next
  case (Cons nav navs)
  from call_navigate_client [OF Cons.prems, of nav "current w"]
  obtain w1 where 1: "call_navigate nav (current w) w = Inr w1" "isClient w1"
       "scalars w1 = scalars w" "arrays w1 = arrays w"
       "heap w1 = heap w" "searchParams w1 = searchParams w" "next_obj w1 = next_obj w"
       "listeners w1 = listeners w" "isListeningPopsate w1 = isListeningPopsate w"
       "dispose_hooks w1 = dispose_hooks w" "pending w1 = pending w"
    by blast
  from Cons.IH [OF 1(2)] 1 show ?case by simp
qed

lemma flush_returns:
  assumes "isClient w \<or> pending w = []"
  shows "\<exists>w'. flush w = Inr w' \<and> isClient w' = isClient w
       \<and> scalars w' = scalars w \<and> arrays w' = arrays w
       \<and> heap w' = heap w \<and> searchParams w' = searchParams w \<and> next_obj w' = next_obj w
       \<and> listeners w' = listeners w \<and> isListeningPopsate w' = isListeningPopsate w
       \<and> dispose_hooks w' = dispose_hooks w \<and> pending w' = []"
proof (cases "isClient w")
  case True
  then have "isClient (w\<lparr>pending := []\<rparr>)" by simp
  from run_ticks_client [OF this, of "pending w"] True show ?thesis
    by (auto simp: flush_def)
next
  case False
  with assms show ?thesis by (simp add: flush_def)
qed

subsection \<open>Reading back an assigned value\<close>

lemma set_value_assign_scalar:
  assumes "i < length (scalars w)"
    and "ser_write (ref_serializer (scalars w ! i)) v \<noteq> writableValue (scalars w ! i)"
  shows "set_value i v w
           = assign_scalar i v
               (scalar_calls (ref_name (scalars w ! i)) (ser_write (ref_serializer (scalars w ! i)) v)) w"
  using assms
  by (simp add: set_value_def assign_scalar_def scalar_calls_def Let_def mutate_searchParams_def
      split: option.splits)

lemma set_array_assign_array:
  assumes "j < length (arrays w)"
    and "map (ser_write (ref_serializer (arrays w ! j))) vs \<noteq> writableValue (arrays w ! j)"
  shows "set_array j vs w
           = assign_array j vs
               (array_calls (ref_name (arrays w ! j)) (map (ser_write (ref_serializer (arrays w ! j))) vs)) w"
  using assms
  by (simp add: set_array_def assign_array_def array_calls_def Let_def mutate_searchParams_def
      isEqualArrays_iff)

lemma assign_scalar_own:
  assumes "i < length (scalars w)"
  shows "scalars (assign_scalar i v f w) ! i =
     (if watching (scalars w ! i)
         \<and> get_param (ref_name (scalars w ! i)) (f (current w))
             \<noteq> ser_write (ref_serializer (scalars w ! i)) v
      then (scalars w ! i)\<lparr>
             readableValue := ser_read (ref_serializer (scalars w ! i))
                                (get_param (ref_name (scalars w ! i)) (f (current w))),
             writableValue := get_param (ref_name (scalars w ! i)) (f (current w)),
             triggered := Suc (Suc (triggered (scalars w ! i))) \<rparr>
      else (scalars w ! i)\<lparr>
             readableValue := v,
             writableValue := ser_write (ref_serializer (scalars w ! i)) v,
             triggered := Suc (triggered (scalars w ! i)) \<rparr>)"
  using assms
  by (simp add: assign_scalar_def Let_def nextTick_def triggerRef_def trigger_scalar_def
      mutate_searchParams_def current_def watch_scalar_def)

lemma assign_array_own:
  assumes "j < length (arrays w)"
  shows "arrays (assign_array j vs f w) ! j =
     (if watching (arrays w ! j)
         \<and> \<not> isEqualArrays (getAll (ref_name (arrays w ! j)) (f (current w)))
                 (map (ser_write (ref_serializer (arrays w ! j))) vs)
      then (arrays w ! j)\<lparr>
             readableValue := map (ser_read (ref_serializer (arrays w ! j)))
                                (getAll (ref_name (arrays w ! j)) (f (current w))),
             writableValue := getAll (ref_name (arrays w ! j)) (f (current w)),
             triggered := Suc (Suc (triggered (arrays w ! j))) \<rparr>
      else (arrays w ! j)\<lparr>
             readableValue := vs,
             writableValue := map (ser_write (ref_serializer (arrays w ! j))) vs,
             triggered := Suc (triggered (arrays w ! j)) \<rparr>)"
  using assms
  by (simp add: assign_array_def Let_def nextTick_def triggerRef_def trigger_array_def
      mutate_searchParams_def current_def watch_array_def)

lemma assign_scalar_frame:
  "isClient (assign_scalar i v f w) = isClient w"
  "pending (assign_scalar i v f w)
     = (if isClient w then pending w @ [ref_navigate (scalars w ! i)] else pending w)"
  "current (assign_scalar i v f w) = f (current w)"
  by (simp_all add: assign_scalar_def Let_def nextTick_def triggerRef_def trigger_scalar_def
      mutate_searchParams_def current_def)

lemma assign_array_frame:
  "isClient (assign_array j vs f w) = isClient w"
  "pending (assign_array j vs f w)
     = (if isClient w then pending w @ [ref_navigate (arrays w ! j)] else pending w)"
  "current (assign_array j vs f w) = f (current w)"
  by (simp_all add: assign_array_def Let_def nextTick_def triggerRef_def trigger_array_def
      mutate_searchParams_def current_def)

text \<open>
  Claim C1, amended. An assignment of \<open>v\<close> that is not a no-op runs the statements of the
  setter around the platform's calls. Whatever those calls leave in the held object, after
  the flush the ref is as follows. If it has a running watcher and the object returns for
  its name another raw value than the serialized \<open>v\<close>, the watcher has re-read: the raw
  cache is the returned value, the ref reads what the serializer makes of it, and the
  observers were notified twice. Otherwise the ref reads \<open>v\<close> itself, the value that was
  assigned, its raw cache is the serialized \<open>v\<close>, and the observers were notified once. In
  particular the ref reads \<open>v\<close> whenever the object returns what was written. The same for
  an array ref and a list.
\<close>

theorem setter_reads_back_assigned_unless_reread:
  "(i < length (scalars w)
      \<and> ser_write (ref_serializer (scalars w ! i)) v \<noteq> writableValue (scalars w ! i)
      \<longrightarrow> set_value i v w
            = assign_scalar i v
                (scalar_calls (ref_name (scalars w ! i)) (ser_write (ref_serializer (scalars w ! i)) v)) w)
   \<and> (i < length (scalars w) \<and> (isClient w \<or> pending w = [])
      \<longrightarrow> (\<exists>w'. flush (assign_scalar i v f w) = Inr w'
            \<and> scalars w' ! i =
                (if watching (scalars w ! i)
                    \<and> get_param (ref_name (scalars w ! i)) (f (current w))
                        \<noteq> ser_write (ref_serializer (scalars w ! i)) v
                 then (scalars w ! i)\<lparr>
                        readableValue := ser_read (ref_serializer (scalars w ! i))
                                           (get_param (ref_name (scalars w ! i)) (f (current w))),
                        writableValue := get_param (ref_name (scalars w ! i)) (f (current w)),
                        triggered := Suc (Suc (triggered (scalars w ! i))) \<rparr>
                 else (scalars w ! i)\<lparr>
                        readableValue := v,
                        writableValue := ser_write (ref_serializer (scalars w ! i)) v,
                        triggered := Suc (triggered (scalars w ! i)) \<rparr>)))
   \<and> (i < length (scalars w)
      \<and> ser_write (ref_serializer (scalars w ! i)) v \<noteq> writableValue (scalars w ! i)
      \<and> (isClient w \<or> pending w = [])
      \<and> get_param (ref_name (scalars w ! i)) (current (set_value i v w))
          = ser_write (ref_serializer (scalars w ! i)) v
      \<longrightarrow> (\<exists>w'. flush (set_value i v w) = Inr w' \<and> get_value i w' = v
            \<and> writableValue (scalars w' ! i) = ser_write (ref_serializer (scalars w ! i)) v
            \<and> triggered (scalars w' ! i) = Suc (triggered (scalars w ! i))))
   \<and> (j < length (arrays w)
      \<and> \<not> isEqualArrays (map (ser_write (ref_serializer (arrays w ! j))) vs) (writableValue (arrays w ! j))
      \<longrightarrow> set_array j vs w
            = assign_array j vs
                (array_calls (ref_name (arrays w ! j)) (map (ser_write (ref_serializer (arrays w ! j))) vs)) w)
   \<and> (j < length (arrays w) \<and> (isClient w \<or> pending w = [])
      \<longrightarrow> (\<exists>w'. flush (assign_array j vs g w) = Inr w'
            \<and> arrays w' ! j =
                (if watching (arrays w ! j)
                    \<and> \<not> isEqualArrays (getAll (ref_name (arrays w ! j)) (g (current w)))
                            (map (ser_write (ref_serializer (arrays w ! j))) vs)
                 then (arrays w ! j)\<lparr>
                        readableValue := map (ser_read (ref_serializer (arrays w ! j)))
                                           (getAll (ref_name (arrays w ! j)) (g (current w))),
                        writableValue := getAll (ref_name (arrays w ! j)) (g (current w)),
                        triggered := Suc (Suc (triggered (arrays w ! j))) \<rparr>
                 else (arrays w ! j)\<lparr>
                        readableValue := vs,
                        writableValue := map (ser_write (ref_serializer (arrays w ! j))) vs,
                        triggered := Suc (triggered (arrays w ! j)) \<rparr>)))
   \<and> (j < length (arrays w)
      \<and> \<not> isEqualArrays (map (ser_write (ref_serializer (arrays w ! j))) vs) (writableValue (arrays w ! j))
      \<and> (isClient w \<or> pending w = [])
      \<and> isEqualArrays (getAll (ref_name (arrays w ! j)) (current (set_array j vs w)))
            (map (ser_write (ref_serializer (arrays w ! j))) vs)
      \<longrightarrow> (\<exists>w'. flush (set_array j vs w) = Inr w' \<and> get_array j w' = vs
            \<and> writableValue (arrays w' ! j) = map (ser_write (ref_serializer (arrays w ! j))) vs
            \<and> triggered (arrays w' ! j) = Suc (triggered (arrays w ! j))))"
proof -
  have s1: "i < length (scalars w)
      \<and> ser_write (ref_serializer (scalars w ! i)) v \<noteq> writableValue (scalars w ! i)
      \<longrightarrow> set_value i v w
            = assign_scalar i v
                (scalar_calls (ref_name (scalars w ! i)) (ser_write (ref_serializer (scalars w ! i)) v)) w"
    by (simp add: set_value_assign_scalar)
  have s2: "\<exists>w'. flush (assign_scalar i v f w) = Inr w'
            \<and> scalars w' ! i =
                (if watching (scalars w ! i)
                    \<and> get_param (ref_name (scalars w ! i)) (f (current w))
                        \<noteq> ser_write (ref_serializer (scalars w ! i)) v
                 then (scalars w ! i)\<lparr>
                        readableValue := ser_read (ref_serializer (scalars w ! i))
                                           (get_param (ref_name (scalars w ! i)) (f (current w))),
                        writableValue := get_param (ref_name (scalars w ! i)) (f (current w)),
                        triggered := Suc (Suc (triggered (scalars w ! i))) \<rparr>
                 else (scalars w ! i)\<lparr>
                        readableValue := v,
                        writableValue := ser_write (ref_serializer (scalars w ! i)) v,
                        triggered := Suc (triggered (scalars w ! i)) \<rparr>)"
    if h: "i < length (scalars w) \<and> (isClient w \<or> pending w = [])" for f
  proof -
    have "isClient (assign_scalar i v f w) \<or> pending (assign_scalar i v f w) = []"
      using h by (auto simp: assign_scalar_frame)
    from flush_returns [OF this] obtain w' where
      fl: "flush (assign_scalar i v f w) = Inr w'" "scalars w' = scalars (assign_scalar i v f w)"
      by blast
    from h have "i < length (scalars w)" by simp
    from fl assign_scalar_own [OF this, of v f] show ?thesis by simp
  qed
  have s3: "\<exists>w'. flush (set_value i v w) = Inr w' \<and> get_value i w' = v
            \<and> writableValue (scalars w' ! i) = ser_write (ref_serializer (scalars w ! i)) v
            \<and> triggered (scalars w' ! i) = Suc (triggered (scalars w ! i))"
    if h: "i < length (scalars w)
      \<and> ser_write (ref_serializer (scalars w ! i)) v \<noteq> writableValue (scalars w ! i)
      \<and> (isClient w \<or> pending w = [])
      \<and> get_param (ref_name (scalars w ! i)) (current (set_value i v w))
          = ser_write (ref_serializer (scalars w ! i)) v"
  proof -
    let ?f = "scalar_calls (ref_name (scalars w ! i)) (ser_write (ref_serializer (scalars w ! i)) v)"
    from h s1 have e: "set_value i v w = assign_scalar i v ?f w" by simp
    with h have r: "get_param (ref_name (scalars w ! i)) (?f (current w))
          = ser_write (ref_serializer (scalars w ! i)) v"
      by (simp add: assign_scalar_frame)
    from h have "i < length (scalars w) \<and> (isClient w \<or> pending w = [])" by simp
    from s2 [OF this, of ?f] r e show ?thesis by (auto simp: get_value_def)
  qed
  have a1: "j < length (arrays w)
      \<and> \<not> isEqualArrays (map (ser_write (ref_serializer (arrays w ! j))) vs) (writableValue (arrays w ! j))
      \<longrightarrow> set_array j vs w
            = assign_array j vs
                (array_calls (ref_name (arrays w ! j)) (map (ser_write (ref_serializer (arrays w ! j))) vs)) w"
    by (simp add: set_array_assign_array isEqualArrays_iff)
  have a2: "\<exists>w'. flush (assign_array j vs g w) = Inr w'
            \<and> arrays w' ! j =
                (if watching (arrays w ! j)
                    \<and> \<not> isEqualArrays (getAll (ref_name (arrays w ! j)) (g (current w)))
                            (map (ser_write (ref_serializer (arrays w ! j))) vs)
                 then (arrays w ! j)\<lparr>
                        readableValue := map (ser_read (ref_serializer (arrays w ! j)))
                                           (getAll (ref_name (arrays w ! j)) (g (current w))),
                        writableValue := getAll (ref_name (arrays w ! j)) (g (current w)),
                        triggered := Suc (Suc (triggered (arrays w ! j))) \<rparr>
                 else (arrays w ! j)\<lparr>
                        readableValue := vs,
                        writableValue := map (ser_write (ref_serializer (arrays w ! j))) vs,
                        triggered := Suc (triggered (arrays w ! j)) \<rparr>)"
    if h: "j < length (arrays w) \<and> (isClient w \<or> pending w = [])" for g
  proof -
    have "isClient (assign_array j vs g w) \<or> pending (assign_array j vs g w) = []"
      using h by (auto simp: assign_array_frame)
    from flush_returns [OF this] obtain w' where
      fl: "flush (assign_array j vs g w) = Inr w'" "arrays w' = arrays (assign_array j vs g w)"
      by blast
    from h have "j < length (arrays w)" by simp
    from fl assign_array_own [OF this, of vs g] show ?thesis by simp
  qed
  have a3: "\<exists>w'. flush (set_array j vs w) = Inr w' \<and> get_array j w' = vs
            \<and> writableValue (arrays w' ! j) = map (ser_write (ref_serializer (arrays w ! j))) vs
            \<and> triggered (arrays w' ! j) = Suc (triggered (arrays w ! j))"
    if h: "j < length (arrays w)
      \<and> \<not> isEqualArrays (map (ser_write (ref_serializer (arrays w ! j))) vs) (writableValue (arrays w ! j))
      \<and> (isClient w \<or> pending w = [])
      \<and> isEqualArrays (getAll (ref_name (arrays w ! j)) (current (set_array j vs w)))
            (map (ser_write (ref_serializer (arrays w ! j))) vs)"
  proof -
    let ?g = "array_calls (ref_name (arrays w ! j)) (map (ser_write (ref_serializer (arrays w ! j))) vs)"
    from h a1 have e: "set_array j vs w = assign_array j vs ?g w" by simp
    with h have r: "isEqualArrays (getAll (ref_name (arrays w ! j)) (?g (current w)))
            (map (ser_write (ref_serializer (arrays w ! j))) vs)"
      by (simp add: assign_array_frame)
    from h have "j < length (arrays w) \<and> (isClient w \<or> pending w = [])" by simp
    from a2 [OF this, of ?g] r e show ?thesis by (auto simp: get_array_def)
  qed
  from s1 s2 s3 a1 a2 a3 show ?thesis by blast
qed

lemmas step_defs =
  set_value_def set_array_def triggerRef_def trigger_scalar_def trigger_array_def
  mutate_searchParams_def nextTick_def watch_scalar_def watch_array_def isEqualArrays_iff
  flush_def call_navigate_def defaultNavigate_def popstate_def onPopstate_def
  disposeScope_def dispose_hook_def stop_watchers_def delete_param_def append_param_def
  fallback_serializer_def get_value_def get_array_def

text \<open>
  Claim C1, amended, on a page with an empty query and one ref of each kind. Through the
  model's URLSearchParams the scalar ref reads \<^verbatim>\<open>"x"\<close> after \<^verbatim>\<open>"x"\<close> was assigned and the
  array ref reads \<^verbatim>\<open>["a", "b"]\<close>, each notified once. Where the platform stores \<^verbatim>\<open>"y"\<close> for
  the written \<^verbatim>\<open>"x"\<close>, or \<^verbatim>\<open>["z"]\<close> for the written \<^verbatim>\<open>["a"]\<close>, the ref's own watcher re-reads:
  the ref reads \<^verbatim>\<open>"y"\<close>, or \<^verbatim>\<open>["z"]\<close>, and was notified twice.
\<close>

theorem setter_reads_back_assigned_unless_reread_witness:
  "case run [UseSearchParam ''q'' None default_serializer None,
             UseSearchParamArray ''tags'' None default_item_serializer None]
            (init_world True []) of
     Inl e \<Rightarrow> False
   | Inr w \<Rightarrow>
       (case flush (set_value 0 (Some ''x'') w) of
          Inl e \<Rightarrow> False
        | Inr w' \<Rightarrow> get_value 0 w' = Some ''x'' \<and> triggered (scalars w' ! 0) = 1)
       \<and> (case flush (assign_scalar 0 (Some ''x'') (set_param ''q'' ''y'') w) of
            Inl e \<Rightarrow> False
          | Inr w' \<Rightarrow>
              get_value 0 w' = Some ''y'' \<and> writableValue (scalars w' ! 0) = Some ''y''
              \<and> triggered (scalars w' ! 0) = 2)
       \<and> (case flush (set_array 0 [''a'', ''b''] w) of
            Inl e \<Rightarrow> False
          | Inr w' \<Rightarrow> get_array 0 w' = [''a'', ''b''] \<and> triggered (arrays w' ! 0) = 1)
       \<and> (case flush (assign_array 0 [''a''] (array_calls ''tags'' [''z'']) w) of
            Inl e \<Rightarrow> False
          | Inr w' \<Rightarrow>
              get_array 0 w' = [''z''] \<and> writableValue (arrays w' ! 0) = [''z'']
              \<and> triggered (arrays w' ! 0) = 2)"
proof -
  obtain w :: "(string option, string) world" where
    r: "run [UseSearchParam ''q'' None default_serializer None,
             UseSearchParamArray ''tags'' None default_item_serializer None]
            (init_world True []) = Inr w"
    and len: "0 < length (scalars w)" "0 < length (arrays w)"
    and cl: "isClient w \<or> pending w = []"
    and cur: "current w = []"
    and b: "scalars w ! 0 = \<lparr> ref_name = ''q'', ref_navigate = DefaultNavigate,
               ref_serializer = default_serializer, writableValue = None, readableValue = None,
               watching = True, owner_scope = None, triggered = 0 \<rparr>"
    and a: "arrays w ! 0 = \<lparr> ref_name = ''tags'', ref_navigate = DefaultNavigate,
               ref_serializer = default_item_serializer, writableValue = [], readableValue = [],
               watching = True, owner_scope = None, triggered = 0 \<rparr>"
    and rb: "get_param ''q'' (current (set_value 0 (Some ''x'') w)) = Some ''x''"
      "getAll ''tags'' (current (set_array 0 [''a'', ''b''] w)) = [''a'', ''b'']"
    by (simp add: run_defs step_defs)
  note s = setter_reads_back_assigned_unless_reread
    [of 0 w "Some ''x''" "set_param ''q'' ''y''" 0 "[''a'', ''b'']" "array_calls ''tags'' [''z'']"]
  note s2 = s [THEN conjunct2]
  note s3 = s2 [THEN conjunct2]
  note s4 = s3 [THEN conjunct2]
  note s5 = s4 [THEN conjunct2]
  note t = setter_reads_back_assigned_unless_reread
    [of 0 w "Some ''x''" "set_param ''q'' ''y''" 0 "[''a'']" "array_calls ''tags'' [''z'']",
     THEN conjunct2, THEN conjunct2, THEN conjunct2, THEN conjunct2, THEN conjunct1]
  have "\<exists>w'. flush (set_value 0 (Some ''x'') w) = Inr w' \<and> get_value 0 w' = Some ''x''
          \<and> triggered (scalars w' ! 0) = 1"
    using s3 [THEN conjunct1] len cl b rb by (auto simp: default_serializer_def)
  then obtain w1 where 1: "flush (set_value 0 (Some ''x'') w) = Inr w1"
    "get_value 0 w1 = Some ''x''" "triggered (scalars w1 ! 0) = 1"
    by blast
  have "\<exists>w'. flush (assign_scalar 0 (Some ''x'') (set_param ''q'' ''y'') w) = Inr w'
          \<and> get_value 0 w' = Some ''y'' \<and> writableValue (scalars w' ! 0) = Some ''y''
          \<and> triggered (scalars w' ! 0) = 2"
    using s2 [THEN conjunct1] len cl b cur
    by (auto simp: default_serializer_def get_param_def get_value_def)
  then obtain w2 where 2: "flush (assign_scalar 0 (Some ''x'') (set_param ''q'' ''y'') w) = Inr w2"
    "get_value 0 w2 = Some ''y''" "writableValue (scalars w2 ! 0) = Some ''y''"
    "triggered (scalars w2 ! 0) = 2"
    by blast
  have "\<exists>w'. flush (set_array 0 [''a'', ''b''] w) = Inr w' \<and> get_array 0 w' = [''a'', ''b'']
          \<and> triggered (arrays w' ! 0) = 1"
    using s5 [THEN conjunct2] len cl a rb
    by (auto simp: default_item_serializer_def isEqualArrays_iff)
  then obtain w3 where 3: "flush (set_array 0 [''a'', ''b''] w) = Inr w3"
    "get_array 0 w3 = [''a'', ''b'']" "triggered (arrays w3 ! 0) = 1"
    by blast
  have "\<exists>w'. flush (assign_array 0 [''a''] (array_calls ''tags'' [''z'']) w) = Inr w'
          \<and> get_array 0 w' = [''z''] \<and> writableValue (arrays w' ! 0) = [''z'']
          \<and> triggered (arrays w' ! 0) = 2"
    using t len cl a cur
    by (auto simp: default_item_serializer_def isEqualArrays_iff getAll_def get_array_def
        array_calls_def delete_param_def append_param_def)
  then obtain w4 where 4: "flush (assign_array 0 [''a''] (array_calls ''tags'' [''z'']) w) = Inr w4"
    "get_array 0 w4 = [''z'']" "writableValue (arrays w4 ! 0) = [''z'']"
    "triggered (arrays w4 ! 0) = 2"
    by blast
  from 1 2 3 4 show ?thesis unfolding r by simp
qed

text \<open>
  Claim C1 as stated fails. With the serializer that reads a missing parameter as
  \<^verbatim>\<open>"all"\<close> and writes the empty string as a missing parameter, assign \<^verbatim>\<open>"x"\<close> and then
  the empty string: the second assignment is no no-op, and after the flush the ref reads
  the empty string, while \<open>read (write [])\<close> is \<^verbatim>\<open>"all"\<close>.
\<close>

theorem get_after_set_is_not_read_of_write:
  "case run [UseSearchParam ''q'' None fallback_serializer None, SetValue 0 ''x'', Flush]
            (init_world True [] :: (string, string) world) of
     Inl e \<Rightarrow> False
   | Inr w \<Rightarrow>
       ser_write (ref_serializer (scalars w ! 0)) [] \<noteq> writableValue (scalars w ! 0)
       \<and> (case flush (set_value 0 [] w) of
            Inl e \<Rightarrow> False
          | Inr w' \<Rightarrow>
              get_value 0 w' = []
              \<and> ser_read (ref_serializer (scalars w ! 0)) (ser_write (ref_serializer (scalars w ! 0)) []) = ''all''
              \<and> get_value 0 w'
                \<noteq> ser_read (ref_serializer (scalars w ! 0)) (ser_write (ref_serializer (scalars w ! 0)) []))"
  by (simp add: run_defs step_defs)

subsection \<open>The empty string and null\<close>






subsection \<open>Object identity of the shared multimap\<close>

lemma onPopstate_client:
  "isClient w \<Longrightarrow>
     \<exists>w'. onPopstate w = Inr w' \<and> isClient w'
       \<and> searchParams w' = next_obj w \<and> next_obj w' = Suc (next_obj w)
       \<and> heap w' = (heap w)(next_obj w := location_search w)
       \<and> location_search w' = location_search w
       \<and> listeners w' = listeners w \<and> isListeningPopsate w' = isListeningPopsate w
       \<and> dispose_hooks w' = dispose_hooks w \<and> pending w' = pending w"
  by (simp add: onPopstate_def triggerRef_def)







subsection \<open>Without a window\<close>

lemma set_value_pending_server: "\<not> isClient w \<Longrightarrow> pending (set_value i v w) = pending w"
  by (simp add: set_value_def Let_def nextTick_def triggerRef_def
      trigger_scalar_def mutate_searchParams_def split: option.splits)

lemma set_array_pending_server: "\<not> isClient w \<Longrightarrow> pending (set_array i vs w) = pending w"
  by (simp add: set_array_def Let_def nextTick_def triggerRef_def
      trigger_array_def mutate_searchParams_def)

text \<open>
  Claim C9. Without a window, \<^verbatim>\<open>listenPopstate\<close> returns with the world unchanged; both
  factories return normally, adding only the new ref, which has no watcher and reads what
  the serializer makes of the shared object's entries; an assignment queues no navigation
  call and touches neither the listeners nor the flag; and the ref reads the assigned
  value afterwards.
\<close>

theorem no_window_degrades_to_noops:
  assumes "\<not> isClient w"
  shows "listenPopstate scope w = Inr w
    \<and> useSearchParam name nav ser scope w
        = Inr (length (scalars w),
               w\<lparr>scalars := scalars w @
                  [\<lparr> ref_name = name, ref_navigate = navigate_or_default nav, ref_serializer = ser,
                     writableValue = get_param name (current w),
                     readableValue = ser_read ser (get_param name (current w)),
                     watching = False, owner_scope = scope, triggered = 0 \<rparr>]\<rparr>)
    \<and> useSearchParamArray name nav ser' scope w
        = Inr (length (arrays w),
               w\<lparr>arrays := arrays w @
                  [\<lparr> ref_name = name, ref_navigate = navigate_or_default nav, ref_serializer = ser',
                     writableValue = getAll name (current w),
                     readableValue = map (ser_read ser') (getAll name (current w)),
                     watching = False, owner_scope = scope, triggered = 0 \<rparr>]\<rparr>)
    \<and> pending (set_value i v w) = pending w
    \<and> listeners (set_value i v w) = listeners w
    \<and> isListeningPopsate (set_value i v w) = isListeningPopsate w
    \<and> pending (set_array j vs w) = pending w
    \<and> listeners (set_array j vs w) = listeners w
    \<and> isListeningPopsate (set_array j vs w) = isListeningPopsate w
    \<and> (i < length (scalars w)
         \<and> ser_write (ref_serializer (scalars w ! i)) v \<noteq> writableValue (scalars w ! i)
         \<longrightarrow> get_value i (set_value i v w) = v)
    \<and> (j < length (arrays w)
         \<and> map (ser_write (ref_serializer (arrays w ! j))) vs \<noteq> writableValue (arrays w ! j)
         \<longrightarrow> get_array j (set_array j vs w) = vs)
    \<and> (pending w = [] \<longrightarrow> flush (set_value i v w) = Inr (set_value i v w)
                           \<and> flush (set_array j vs w) = Inr (set_array j vs w))"
proof -
  have 1: "listenPopstate scope w = Inr w"
    using assms by (simp add: listenPopstate_def)
  have 2: "useSearchParam name nav ser scope w
        = Inr (length (scalars w),
               w\<lparr>scalars := scalars w @
                  [\<lparr> ref_name = name, ref_navigate = navigate_or_default nav, ref_serializer = ser,
                     writableValue = get_param name (current w),
                     readableValue = ser_read ser (get_param name (current w)),
                     watching = False, owner_scope = scope, triggered = 0 \<rparr>]\<rparr>)"
    using assms by (simp add: useSearchParam_def listenPopstate_def Let_def)
  have 3: "useSearchParamArray name nav ser' scope w
        = Inr (length (arrays w),
               w\<lparr>arrays := arrays w @
                  [\<lparr> ref_name = name, ref_navigate = navigate_or_default nav, ref_serializer = ser',
                     writableValue = getAll name (current w),
                     readableValue = map (ser_read ser') (getAll name (current w)),
                     watching = False, owner_scope = scope, triggered = 0 \<rparr>]\<rparr>)"
    using assms by (simp add: useSearchParamArray_def listenPopstate_def Let_def)
  have 4: "pending (set_value i v w) = pending w" "pending (set_array j vs w) = pending w"
    using assms by (simp_all add: set_value_pending_server set_array_pending_server)
  have 5: "i < length (scalars w)
         \<and> ser_write (ref_serializer (scalars w ! i)) v \<noteq> writableValue (scalars w ! i)
         \<longrightarrow> get_value i (set_value i v w) = v"
    by (simp add: get_value_def set_value_own)
  have 6: "j < length (arrays w)
         \<and> map (ser_write (ref_serializer (arrays w ! j))) vs \<noteq> writableValue (arrays w ! j)
         \<longrightarrow> get_array j (set_array j vs w) = vs"
    by (simp add: get_array_def set_array_own)
  have 7: "pending w = [] \<longrightarrow> flush (set_value i v w) = Inr (set_value i v w)
                           \<and> flush (set_array j vs w) = Inr (set_array j vs w)"
    using 4 by (simp add: flush_def)
  from 1 2 3 4 5 6 7 show ?thesis
    by (simp only: set_value_frame set_array_frame simp_thms)
qed

text \<open>
  Claim C9 for a ref of \<^verbatim>\<open>foo\<close> created without a window: it reads null, no listener and no
  watcher exist, and after assigning \<^verbatim>\<open>"bar"\<close> it reads \<^verbatim>\<open>"bar"\<close>, the shared object holds
  \<^verbatim>\<open>foo=bar\<close>, and nothing is queued.
\<close>

theorem no_window_degrades_to_noops_witness:
  "case useSearchParam ''foo'' None default_serializer (Some 1)
          (init_world False [(''foo'', ''ignored'')] :: (string option, string) world) of
     Inl e \<Rightarrow> False
   | Inr r \<Rightarrow>
       fst r = 0 \<and> get_value 0 (snd r) = None
       \<and> listeners (snd r) = [] \<and> \<not> isListeningPopsate (snd r)
       \<and> \<not> watching (scalars (snd r) ! 0)
       \<and> get_value 0 (set_value 0 (Some ''bar'') (snd r)) = Some ''bar''
       \<and> current (set_value 0 (Some ''bar'') (snd r)) = [(''foo'', ''bar'')]
       \<and> pending (set_value 0 (Some ''bar'') (snd r)) = []
       \<and> flush (set_value 0 (Some ''bar'') (snd r)) = Inr (set_value 0 (Some ''bar'') (snd r))"
proof -
  let ?w0 = "init_world False [(''foo'', ''ignored'')] :: (string option, string) world"
  have n: "\<not> isClient ?w0" by (simp add: init_world_def)
  from no_window_degrades_to_noops [OF n, of "Some 1" "''foo''" None default_serializer]
  obtain w where r: "useSearchParam ''foo'' None default_serializer (Some 1) ?w0 = Inr (0, w)"
    and w: "w = ?w0\<lparr>scalars := scalars ?w0 @
                  [\<lparr> ref_name = ''foo'', ref_navigate = navigate_or_default None,
                     ref_serializer = default_serializer,
                     writableValue = get_param ''foo'' (current ?w0),
                     readableValue = ser_read default_serializer (get_param ''foo'' (current ?w0)),
                     watching = False, owner_scope = Some 1, triggered = 0 \<rparr>]\<rparr>"
    by (simp add: init_world_def)
  have c: "\<not> isClient w" using w by (simp add: init_world_def)
  from no_window_degrades_to_noops [OF c, of _ _ _ _ _ 0 "Some ''bar''"]
  have "pending (set_value 0 (Some ''bar'') w) = pending w"
    "0 < length (scalars w)
         \<and> ser_write (ref_serializer (scalars w ! 0)) (Some ''bar'') \<noteq> writableValue (scalars w ! 0)
         \<longrightarrow> get_value 0 (set_value 0 (Some ''bar'') w) = Some ''bar''"
    by blast+
  then have "pending (set_value 0 (Some ''bar'') w) = []"
    "get_value 0 (set_value 0 (Some ''bar'') w) = Some ''bar''"
    by (simp_all add: w run_defs)
  moreover have "get_value 0 w = None" "listeners w = []" "\<not> isListeningPopsate w"
    "\<not> watching (scalars w ! 0)" "current (set_value 0 (Some ''bar'') w) = [(''foo'', ''bar'')]"
    by (simp_all add: w run_defs step_defs)
  ultimately show ?thesis unfolding r by (simp add: flush_def)
qed

subsection \<open>The listener flag and the live listeners\<close>

lemma listener_inv_cong:
  assumes "isClient w' = isClient w" "isListeningPopsate w' = isListeningPopsate w"
    "listeners w' = listeners w" "dispose_hooks w' = dispose_hooks w"
  shows "listener_inv w' = listener_inv w"
  using assms by (simp add: listener_inv_def)

lemma listener_inv_init: "listener_inv (init_world client loc)"
  by (simp add: listener_inv_def init_world_def)

lemma listenPopstate_installed: "isListeningPopsate w \<Longrightarrow> listenPopstate scope w = Inr w"
  by (simp add: listenPopstate_def)

lemma listenPopstate_returns:
  "\<exists>w'. listenPopstate scope w = Inr w'
     \<and> isClient w' = isClient w
     \<and> length (listeners w') \<le> Suc (length (listeners w))
     \<and> (isClient w \<longrightarrow> isListeningPopsate w')
     \<and> scalars w' = scalars w \<and> arrays w' = arrays w
     \<and> heap w' = heap w \<and> searchParams w' = searchParams w"
  by (cases scope) (simp_all add: listenPopstate_def addEventListener_def)

lemma listenPopstate_inv:
  assumes "listener_inv w" and "listenPopstate scope w = Inr w'"
  shows "listener_inv w'"
proof (cases "\<not> isClient w \<or> isListeningPopsate w")
  case True
  with assms show ?thesis by (simp add: listenPopstate_def)
next
  case False
  with assms show ?thesis
    by (cases scope) (auto simp: listenPopstate_def addEventListener_def listener_inv_def)
qed

lemma listen_calls_Cons: "listen_calls (scope # scopes) w = listenPopstate scope w"
proof (induction scopes arbitrary: scope w)
  case Nil
  show ?case by (simp split: sum.splits)
next
  case (Cons s ss)
  obtain w' where 1: "listenPopstate scope w = Inr w'" "isClient w' = isClient w"
     "isClient w \<longrightarrow> isListeningPopsate w'"
    using listenPopstate_returns [of scope w] by blast
  have 2: "listenPopstate s w' = Inr w'"
  proof (cases "isClient w")
    case True
    with 1 show ?thesis by (simp add: listenPopstate_installed)
  next
    case False
    with 1 show ?thesis by (simp add: listenPopstate_def)
  qed
  have "listen_calls (scope # s # ss) w = listen_calls (s # ss) w'"
    using 1 by simp
  also have "\<dots> = listenPopstate s w'" by (rule Cons.IH)
  finally show ?case using 1 2 by simp
qed

lemma listen_calls_installed: "isListeningPopsate w \<Longrightarrow> listen_calls scopes w = Inr w"
  by (cases scopes) (simp_all only: listen_calls.simps(1) listen_calls_Cons listenPopstate_installed)

lemma dispatch_listening:
  "dispatch ls w = Inr w' \<Longrightarrow>
     isClient w' = isClient w \<and> isListeningPopsate w' = isListeningPopsate w
     \<and> listeners w' = listeners w \<and> dispose_hooks w' = dispose_hooks w"
proof (induction ls arbitrary: w)
  case Nil
  then show ?case by simp
next
  case (Cons l ls)
  show ?case
  proof (cases "isClient w")
    case True
    from onPopstate_client [OF True] obtain w1 where 1: "onPopstate w = Inr w1"
      "isClient w1" "listeners w1 = listeners w" "isListeningPopsate w1 = isListeningPopsate w"
      "dispose_hooks w1 = dispose_hooks w"
      by blast
    with Cons.prems have "dispatch ls w1 = Inr w'" by simp
    from Cons.IH [OF this] 1 True show ?thesis by simp
  next
    case False
    with Cons.prems show ?thesis by (simp add: onPopstate_def)
  qed
qed

lemma call_navigate_listening:
  "call_navigate nav sp w = Inr w' \<Longrightarrow>
     isClient w' = isClient w \<and> isListeningPopsate w' = isListeningPopsate w
     \<and> listeners w' = listeners w \<and> dispose_hooks w' = dispose_hooks w
     \<and> scalars w' = scalars w \<and> arrays w' = arrays w \<and> current w' = current w"
  by (cases nav) (auto simp: call_navigate_def defaultNavigate_def current_def split: if_splits)

lemma run_ticks_listening:
  "run_ticks navs w = Inr w' \<Longrightarrow>
     isClient w' = isClient w \<and> isListeningPopsate w' = isListeningPopsate w
     \<and> listeners w' = listeners w \<and> dispose_hooks w' = dispose_hooks w
     \<and> scalars w' = scalars w \<and> arrays w' = arrays w \<and> current w' = current w"
proof (induction navs arbitrary: w)
  case Nil
  then show ?case by simp
next
  case (Cons nav navs)
  then obtain w1 where 1: "call_navigate nav (current w) w = Inr w1" "run_ticks navs w1 = Inr w'"
    by (auto split: sum.splits)
  from Cons.IH [OF 1(2)] call_navigate_listening [OF 1(1)] show ?case by simp
qed

lemma disposeScope_inv:
  assumes "listener_inv w" and "disposeScope s w = Inr w'"
  shows "listener_inv w'"
proof (cases "dispose_hooks w")
  case Nil
  with assms show ?thesis by (auto simp: disposeScope_def listener_inv_def)
next
  case (Cons h hs)
  with assms(1) have hs: "hs = []" and l: "isListeningPopsate w" "isClient w" "listeners w = [snd h]"
    by (auto simp: listener_inv_def length_Suc_conv split: if_splits)
  show ?thesis
  proof (cases "fst h = s")
    case True
    with assms(2) Cons hs l show ?thesis
      by (auto simp: disposeScope_def dispose_hook_def listener_inv_def)
  next
    case False
    with assms Cons hs l show ?thesis
      by (auto simp: disposeScope_def listener_inv_def)
  qed
qed

lemma step_listener_inv:
  assumes "listener_inv w" and "step x w = Inr w'"
  shows "listener_inv w'"
proof (cases x)
  case (UseSearchParam name nav ser scope)
  with assms(2) have "listenPopstate scope (w\<lparr>scalars := scalars w @
      [\<lparr> ref_name = name, ref_navigate = navigate_or_default nav, ref_serializer = ser,
         writableValue = get_param name (current w),
         readableValue = ser_read ser (get_param name (current w)),
         watching = isClient w, owner_scope = scope, triggered = 0 \<rparr>]\<rparr>) = Inr w'"
    by (auto simp: useSearchParam_def Let_def split: sum.splits)
  moreover have "listener_inv (w\<lparr>scalars := scalars w @
      [\<lparr> ref_name = name, ref_navigate = navigate_or_default nav, ref_serializer = ser,
         writableValue = get_param name (current w),
         readableValue = ser_read ser (get_param name (current w)),
         watching = isClient w, owner_scope = scope, triggered = 0 \<rparr>]\<rparr>)"
    using assms(1) by (auto simp: listener_inv_def split: if_splits)
  ultimately show ?thesis by (rule listenPopstate_inv [rotated])
next
  case (UseSearchParamArray name nav ser scope)
  with assms(2) have "listenPopstate scope (w\<lparr>arrays := arrays w @
      [\<lparr> ref_name = name, ref_navigate = navigate_or_default nav, ref_serializer = ser,
         writableValue = getAll name (current w),
         readableValue = map (ser_read ser) (getAll name (current w)),
         watching = isClient w, owner_scope = scope, triggered = 0 \<rparr>]\<rparr>) = Inr w'"
    by (auto simp: useSearchParamArray_def Let_def split: sum.splits)
  moreover have "listener_inv (w\<lparr>arrays := arrays w @
      [\<lparr> ref_name = name, ref_navigate = navigate_or_default nav, ref_serializer = ser,
         writableValue = getAll name (current w),
         readableValue = map (ser_read ser) (getAll name (current w)),
         watching = isClient w, owner_scope = scope, triggered = 0 \<rparr>]\<rparr>)"
    using assms(1) by (auto simp: listener_inv_def split: if_splits)
  ultimately show ?thesis by (rule listenPopstate_inv [rotated])
next
  case (SetValue i v)
  have "listener_inv (set_value i v w) = listener_inv w"
    by (rule listener_inv_cong) (simp_all add: set_value_frame)
  with SetValue assms show ?thesis by auto
next
  case (SetArray i vs)
  have "listener_inv (set_array i vs w) = listener_inv w"
    by (rule listener_inv_cong) (simp_all add: set_array_frame)
  with SetArray assms show ?thesis by auto
next
  case (Popstate loc)
  with assms(2) have "dispatch (listeners w) (w\<lparr>location_search := loc\<rparr>) = Inr w'"
    by (simp add: popstate_def)
  from dispatch_listening [OF this] assms(1) show ?thesis
    by (simp add: listener_inv_cong [of w' w])
next
  case (DisposeScope s)
  with assms show ?thesis by (simp add: disposeScope_inv)
next
  case Flush
  with assms(2) have "run_ticks (pending w) (w\<lparr>pending := []\<rparr>) = Inr w'"
    by (simp add: flush_def)
  from run_ticks_listening [OF this] assms(1) show ?thesis
    by (simp add: listener_inv_cong [of w' w])
qed

lemma reachable_listener_inv: "reachable w \<Longrightarrow> listener_inv w"
  by (induction rule: reachable.induct) (simp_all add: listener_inv_init step_listener_inv)

lemma listener_inv_count:
  "listener_inv w \<Longrightarrow>
     length (listeners w) \<le> 1 \<and> (isListeningPopsate w \<longleftrightarrow> length (listeners w) = 1)"
  by (auto simp: listener_inv_def split: if_splits)

lemma listen_calls_returns:
  "\<exists>w'. listen_calls scopes w = Inr w'
     \<and> length (listeners w') \<le> Suc (length (listeners w))
     \<and> (listener_inv w \<longrightarrow> listener_inv w')"
proof (cases scopes)
  case Nil
  then show ?thesis by simp
next
  case (Cons scope rest)
  obtain w' where 1: "listenPopstate scope w = Inr w'"
      "length (listeners w') \<le> Suc (length (listeners w))"
    using listenPopstate_returns [of scope w] by blast
  with Cons show ?thesis
    by (auto simp only: listen_calls_Cons intro: listenPopstate_inv)
qed

text \<open>
  Claim C7. Any number of calls of \<^verbatim>\<open>listenPopstate\<close>, from whatever scopes, do what the
  first call alone does; while the flag is set they change nothing; they always return
  and add at most one listener; and in every world the library can reach there is at most
  one live listener, exactly when the flag is set, before and after the calls.
\<close>

theorem listenPopstate_idempotent:
  "listen_calls (scope # scopes) w = listenPopstate scope w
   \<and> (isListeningPopsate w \<longrightarrow> listen_calls scopes w = Inr w)
   \<and> (\<exists>w'. listen_calls scopes w = Inr w'
         \<and> length (listeners w') \<le> Suc (length (listeners w)))
   \<and> (reachable w \<longrightarrow>
         length (listeners w) \<le> 1
         \<and> (isListeningPopsate w \<longleftrightarrow> length (listeners w) = 1)
         \<and> (\<exists>w'. listen_calls scopes w = Inr w'
               \<and> length (listeners w') \<le> 1
               \<and> (isListeningPopsate w' \<longleftrightarrow> length (listeners w') = 1)))"
proof (intro conjI impI)
  show "listen_calls (scope # scopes) w = listenPopstate scope w"
    by (rule listen_calls_Cons)
  show "isListeningPopsate w \<Longrightarrow> listen_calls scopes w = Inr w"
    by (rule listen_calls_installed)
  show "\<exists>w'. listen_calls scopes w = Inr w'
         \<and> length (listeners w') \<le> Suc (length (listeners w))"
    using listen_calls_returns [of scopes w] by blast
next
  assume r: "reachable w"
  then have i: "listener_inv w" by (rule reachable_listener_inv)
  from listener_inv_count [OF i] show "length (listeners w) \<le> 1"
    and "isListeningPopsate w \<longleftrightarrow> length (listeners w) = 1"
    by simp_all
  from listen_calls_returns [of scopes w] i obtain w' where
    "listen_calls scopes w = Inr w'" "listener_inv w'" by blast
  with listener_inv_count [of w'] show "\<exists>w'. listen_calls scopes w = Inr w'
               \<and> length (listeners w') \<le> 1
               \<and> (isListeningPopsate w' \<longleftrightarrow> length (listeners w') = 1)"
    by blast
qed

text \<open>
  Claim C7 on a freshly loaded page: four calls install one listener with the disposal
  hook of the first caller's scope, and two further calls change nothing.
\<close>

theorem listenPopstate_idempotent_witness:
  "reachable (init_world True [] :: (string option, string) world)
   \<and> (case listen_calls [Some 2, None] (init_world True [] :: (string option, string) world) of
        Inl e \<Rightarrow> False
      | Inr w \<Rightarrow> length (listeners w) \<le> 1)
   \<and> (case listen_calls [Some 1, Some 2, None, Some 1] (init_world True [] :: (string option, string) world) of
        Inl e \<Rightarrow> False
      | Inr w \<Rightarrow>
          length (listeners w) = 1 \<and> isListeningPopsate w \<and> dispose_hooks w = [(1, 0)]
          \<and> listen_calls [Some 3, None] w = Inr w)"
proof -
  let ?w0 = "init_world True [] :: (string option, string) world"
  have r: "reachable ?w0" by (rule reachable_init)
  from listenPopstate_idempotent [of "Some 1" "[Some 2, None]" ?w0] r
  obtain w2 where 2: "listen_calls [Some 2, None] ?w0 = Inr w2" "length (listeners w2) \<le> 1"
    by blast
  from listenPopstate_idempotent [of "Some 1" "[Some 2, None, Some 1]" ?w0]
  have 1: "listen_calls [Some 1, Some 2, None, Some 1] ?w0 = listenPopstate (Some 1) ?w0"
    by blast
  obtain w where w: "listenPopstate (Some 1) ?w0 = Inr w" "isListeningPopsate w"
     "length (listeners w) = 1" "dispose_hooks w = [(1, 0)]"
    by (simp add: listenPopstate_def addEventListener_def init_world_def)
  from listenPopstate_idempotent [of _ "[Some 3, None]" w] w(2)
  have "listen_calls [Some 3, None] w = Inr w" by blast
  with r w 2 show ?thesis unfolding 1 by simp
qed

subsection \<open>Caches of watching refs agree with the shared object\<close>

lemma coherent_cong:
  assumes "scalars w' = scalars w" "arrays w' = arrays w" "current w' = current w"
  shows "coherent w' = coherent w"
  using assms by (simp add: coherent_def)

lemma coherent_init: "coherent (init_world client loc)"
  by (simp add: coherent_def init_world_def)

lemma coherent_triggerRef: "coherent (triggerRef w)"
  by (auto simp: coherent_def triggerRef_fields)
     (auto simp: triggerRef_def watch_scalar_def watch_array_def Let_def isEqualArrays_iff split: if_splits)

lemma coherent_nextTick: "coherent (nextTick nav w) = coherent w"
  by (simp add: coherent_def nextTick_def current_def)

lemma set_value_coherent: "coherent w \<Longrightarrow> coherent (set_value i v w)"
  by (simp add: set_value_def Let_def coherent_triggerRef coherent_nextTick)

lemma set_array_coherent: "coherent w \<Longrightarrow> coherent (set_array i vs w)"
  by (simp add: set_array_def Let_def coherent_triggerRef coherent_nextTick)

lemma dispatch_coherent: "coherent w \<Longrightarrow> dispatch ls w = Inr w' \<Longrightarrow> coherent w'"
proof (induction ls arbitrary: w)
  case Nil
  then show ?case by simp
next
  case (Cons l ls)
  then obtain w1 where 1: "onPopstate w = Inr w1" "dispatch ls w1 = Inr w'"
    by (auto split: sum.splits)
  from 1(1) have "coherent w1"
    by (auto simp: onPopstate_def coherent_triggerRef split: if_splits)
  from Cons.IH [OF this 1(2)] show ?case .
qed

lemma run_hooks_refs:
  "run_hooks s hs w = Inr w' \<Longrightarrow>
     scalars w' = scalars w \<and> arrays w' = arrays w \<and> current w' = current w"
proof (induction hs arbitrary: w)
  case Nil
  then show ?case by simp
next
  case (Cons h hs)
  show ?case
  proof (cases "fst h = s")
    case True
    with Cons.prems obtain w1 where 1: "dispose_hook (snd h) w = Inr w1" "run_hooks s hs w1 = Inr w'"
      by (auto split: sum.splits)
    from 1(1) have "scalars w1 = scalars w \<and> arrays w1 = arrays w \<and> current w1 = current w"
      by (auto simp: dispose_hook_def current_def split: if_splits)
    with Cons.IH [OF 1(2)] show ?thesis by simp
  next
    case False
    with Cons.prems Cons.IH show ?thesis by simp
  qed
qed

lemma disposeScope_coherent:
  assumes "coherent w" and "disposeScope s w = Inr w'"
  shows "coherent w'"
proof -
  let ?w1 = "w\<lparr> scalars := stop_watchers s (scalars w),
           arrays := stop_watchers s (arrays w),
           dispose_hooks := filter (\<lambda>h. fst h \<noteq> s) (dispose_hooks w) \<rparr>"
  have "coherent ?w1"
    using assms(1) by (auto simp: coherent_def stop_watchers_def current_def)
  moreover from assms(2) have "run_hooks s (dispose_hooks w) ?w1 = Inr w'"
    by (simp add: disposeScope_def)
  from run_hooks_refs [OF this] have "coherent w' = coherent ?w1"
    by (intro coherent_cong) simp_all
  ultimately show ?thesis by simp
qed

lemma listenPopstate_coherent:
  assumes "coherent w" and "listenPopstate scope w = Inr w'"
  shows "coherent w'"
proof -
  from listenPopstate_returns [of scope w] assms(2)
  have "scalars w' = scalars w \<and> arrays w' = arrays w \<and> current w' = current w"
    by (auto simp: current_def)
  then have "coherent w' = coherent w" by (intro coherent_cong) simp_all
  with assms(1) show ?thesis by simp
qed

lemma step_coherent:
  assumes "coherent w" and "step x w = Inr w'"
  shows "coherent w'"
proof (cases x)
  case (UseSearchParam name nav ser scope)
  with assms(2) have "listenPopstate scope (w\<lparr>scalars := scalars w @
      [\<lparr> ref_name = name, ref_navigate = navigate_or_default nav, ref_serializer = ser,
         writableValue = get_param name (current w),
         readableValue = ser_read ser (get_param name (current w)),
         watching = isClient w, owner_scope = scope, triggered = 0 \<rparr>]\<rparr>) = Inr w'"
    by (auto simp: useSearchParam_def Let_def split: sum.splits)
  moreover have "coherent (w\<lparr>scalars := scalars w @
      [\<lparr> ref_name = name, ref_navigate = navigate_or_default nav, ref_serializer = ser,
         writableValue = get_param name (current w),
         readableValue = ser_read ser (get_param name (current w)),
         watching = isClient w, owner_scope = scope, triggered = 0 \<rparr>]\<rparr>)"
    using assms(1) by (auto simp: coherent_def current_def)
  ultimately show ?thesis by (rule listenPopstate_coherent [rotated])
next
  case (UseSearchParamArray name nav ser scope)
  with assms(2) have "listenPopstate scope (w\<lparr>arrays := arrays w @
      [\<lparr> ref_name = name, ref_navigate = navigate_or_default nav, ref_serializer = ser,
         writableValue = getAll name (current w),
         readableValue = map (ser_read ser) (getAll name (current w)),
         watching = isClient w, owner_scope = scope, triggered = 0 \<rparr>]\<rparr>) = Inr w'"
    by (auto simp: useSearchParamArray_def Let_def split: sum.splits)
  moreover have "coherent (w\<lparr>arrays := arrays w @
      [\<lparr> ref_name = name, ref_navigate = navigate_or_default nav, ref_serializer = ser,
         writableValue = getAll name (current w),
         readableValue = map (ser_read ser) (getAll name (current w)),
         watching = isClient w, owner_scope = scope, triggered = 0 \<rparr>]\<rparr>)"
    using assms(1) by (auto simp: coherent_def current_def)
  ultimately show ?thesis by (rule listenPopstate_coherent [rotated])
next
  case (SetValue i v)
  with assms show ?thesis by (auto simp: set_value_coherent)
next
  case (SetArray i vs)
  with assms show ?thesis by (auto simp: set_array_coherent)
next
  case (Popstate loc)
  with assms(2) have "dispatch (listeners w) (w\<lparr>location_search := loc\<rparr>) = Inr w'"
    by (simp add: popstate_def)
  moreover have "coherent (w\<lparr>location_search := loc\<rparr>)"
    using assms(1) by (simp add: coherent_def current_def)
  ultimately show ?thesis by (rule dispatch_coherent [rotated])
next
  case (DisposeScope s)
  with assms show ?thesis by (simp add: disposeScope_coherent)
next
  case Flush
  with assms(2) have "run_ticks (pending w) (w\<lparr>pending := []\<rparr>) = Inr w'"
    by (simp add: flush_def)
  from run_ticks_listening [OF this] have "coherent w' = coherent (w\<lparr>pending := []\<rparr>)"
    by (intro coherent_cong) simp_all
  with assms(1) show ?thesis by (simp add: coherent_def current_def)
qed

lemma reachable_coherent: "reachable w \<Longrightarrow> coherent w"
  by (induction rule: reachable.induct) (simp_all add: coherent_init step_coherent)

subsection \<open>No notification without a change of the ref's own values\<close>

lemma coherent_scalarD:
  "coherent w \<Longrightarrow> k < length (scalars w) \<Longrightarrow> watching (scalars w ! k) \<Longrightarrow>
     get_param (ref_name (scalars w ! k)) (current w) = writableValue (scalars w ! k)"
  by (simp add: coherent_def)

lemma coherent_arrayD:
  "coherent w \<Longrightarrow> k < length (arrays w) \<Longrightarrow> watching (arrays w ! k) \<Longrightarrow>
     getAll (ref_name (arrays w ! k)) (current w) = writableValue (arrays w ! k)"
  by (simp add: coherent_def)

lemma set_value_other_scalar:
  assumes "coherent w" "i < length (scalars w)" "k < length (scalars w)"
    and "ref_name (scalars w ! k) \<noteq> ref_name (scalars w ! i)"
  shows "scalars (set_value i v w) ! k = scalars w ! k"
proof (cases "ser_write (ref_serializer (scalars w ! i)) v = writableValue (scalars w ! i)")
  case True
  then show ?thesis by (simp add: set_value_noop)
next
  case False
  from assms(4) have ki: "k \<noteq> i" by auto
  show ?thesis
  proof (cases "watching (scalars w ! k)")
    case True
    with assms have "watch_scalar (scalar_written i v w) (scalars w ! k) = scalars w ! k"
      by (intro watch_scalar_same) (simp add: get_param_scalar_written_other coherent_scalarD)
    with assms False ki True show ?thesis by (simp add: set_value_scalars)
  next
    case nw: False
    with assms False ki show ?thesis by (simp add: set_value_scalars)
  qed
qed

lemma set_value_other_array:
  assumes "coherent w" "i < length (scalars w)" "k < length (arrays w)"
    and "ref_name (arrays w ! k) \<noteq> ref_name (scalars w ! i)"
  shows "arrays (set_value i v w) ! k = arrays w ! k"
proof (cases "ser_write (ref_serializer (scalars w ! i)) v = writableValue (scalars w ! i)")
  case True
  then show ?thesis by (simp add: set_value_noop)
next
  case False
  show ?thesis
  proof (cases "watching (arrays w ! k)")
    case True
    with assms have "watch_array (scalar_written i v w) (arrays w ! k) = arrays w ! k"
      by (intro watch_array_same) (simp add: getAll_scalar_written_other coherent_arrayD)
    with assms False True show ?thesis by (simp add: set_value_arrays)
  next
    case nw: False
    with assms False show ?thesis by (simp add: set_value_arrays)
  qed
qed

lemma set_array_other_scalar:
  assumes "coherent w" "j < length (arrays w)" "k < length (scalars w)"
    and "ref_name (scalars w ! k) \<noteq> ref_name (arrays w ! j)"
  shows "scalars (set_array j vs w) ! k = scalars w ! k"
proof (cases "map (ser_write (ref_serializer (arrays w ! j))) vs = writableValue (arrays w ! j)")
  case True
  then show ?thesis by (simp add: set_array_noop)
next
  case False
  show ?thesis
  proof (cases "watching (scalars w ! k)")
    case True
    with assms have "watch_scalar (array_written j vs w) (scalars w ! k) = scalars w ! k"
      by (intro watch_scalar_same) (simp add: get_param_array_written_other coherent_scalarD)
    with assms False True show ?thesis by (simp add: set_array_scalars)
  next
    case nw: False
    with assms False show ?thesis by (simp add: set_array_scalars)
  qed
qed

lemma set_array_other_array:
  assumes "coherent w" "j < length (arrays w)" "k < length (arrays w)"
    and "ref_name (arrays w ! k) \<noteq> ref_name (arrays w ! j)"
  shows "arrays (set_array j vs w) ! k = arrays w ! k"
proof (cases "map (ser_write (ref_serializer (arrays w ! j))) vs = writableValue (arrays w ! j)")
  case True
  then show ?thesis by (simp add: set_array_noop)
next
  case False
  from assms(4) have kj: "k \<noteq> j" by auto
  show ?thesis
  proof (cases "watching (arrays w ! k)")
    case True
    with assms have "watch_array (array_written j vs w) (arrays w ! k) = arrays w ! k"
      by (intro watch_array_same) (simp add: getAll_array_written_other coherent_arrayD)
    with assms False kj True show ?thesis by (simp add: set_array_arrays)
  next
    case nw: False
    with assms False kj show ?thesis by (simp add: set_array_arrays)
  qed
qed

lemma dispatch_same_scalar:
  assumes "dispatch ls w = Inr w'" "k < length (scalars w)"
    and "watching (scalars w ! k) \<longrightarrow>
           get_param (ref_name (scalars w ! k)) (current w) = writableValue (scalars w ! k)"
    and "get_param (ref_name (scalars w ! k)) (location_search w)
           = get_param (ref_name (scalars w ! k)) (current w)"
  shows "scalars w' ! k = scalars w ! k"
  using assms
proof (induction ls arbitrary: w)
  case Nil
  then show ?case by simp
next
  case (Cons l ls)
  from Cons.prems(1) have c: "isClient w"
    by (auto simp: onPopstate_def split: if_splits sum.splits)
  let ?w1 = "triggerRef (w\<lparr> heap := (heap w)(next_obj w := location_search w),
                               searchParams := next_obj w,
                               next_obj := Suc (next_obj w) \<rparr>)"
  from c have o: "onPopstate w = Inr ?w1" by (simp add: onPopstate_def)
  with Cons.prems(1) have d: "dispatch ls ?w1 = Inr w'" by simp
  have cur: "current ?w1 = location_search w" "location_search ?w1 = location_search w"
    by (simp_all add: triggerRef_fields) (simp add: current_def)
  have same: "scalars ?w1 ! k = scalars w ! k"
    using Cons.prems(2-4)
    by (auto simp: triggerRef_def current_def watch_scalar_same)
  have "scalars w' ! k = scalars ?w1 ! k"
    using Cons.prems(2-4)
    by (intro Cons.IH [OF d]) (simp_all add: same triggerRef_fields, simp_all add: current_def)
  with same show ?case by simp
qed

lemma dispatch_same_array:
  assumes "dispatch ls w = Inr w'" "k < length (arrays w)"
    and "watching (arrays w ! k) \<longrightarrow>
           getAll (ref_name (arrays w ! k)) (current w) = writableValue (arrays w ! k)"
    and "getAll (ref_name (arrays w ! k)) (location_search w)
           = getAll (ref_name (arrays w ! k)) (current w)"
  shows "arrays w' ! k = arrays w ! k"
  using assms
proof (induction ls arbitrary: w)
  case Nil
  then show ?case by simp
next
  case (Cons l ls)
  from Cons.prems(1) have c: "isClient w"
    by (auto simp: onPopstate_def split: if_splits sum.splits)
  let ?w1 = "triggerRef (w\<lparr> heap := (heap w)(next_obj w := location_search w),
                               searchParams := next_obj w,
                               next_obj := Suc (next_obj w) \<rparr>)"
  from c have o: "onPopstate w = Inr ?w1" by (simp add: onPopstate_def)
  with Cons.prems(1) have d: "dispatch ls ?w1 = Inr w'" by simp
  have cur: "current ?w1 = location_search w" "location_search ?w1 = location_search w"
    by (simp_all add: triggerRef_fields) (simp add: current_def)
  have same: "arrays ?w1 ! k = arrays w ! k"
    using Cons.prems(2-4)
    by (auto simp: triggerRef_def current_def watch_array_same)
  have "arrays w' ! k = arrays ?w1 ! k"
    using Cons.prems(2-4)
    by (intro Cons.IH [OF d]) (simp_all add: same triggerRef_fields, simp_all add: current_def)
  with same show ?case by simp
qed

lemma dispatch_returns: "isClient w \<Longrightarrow> \<exists>w'. dispatch ls w = Inr w'"
proof (induction ls arbitrary: w)
  case Nil
  show ?case by simp
next
  case (Cons l ls)
  from onPopstate_client [OF Cons.prems] obtain w1 where "onPopstate w = Inr w1" "isClient w1"
    by blast
  with Cons.IH [of w1] show ?case by simp
qed

lemma popstate_returns: "listener_inv w \<Longrightarrow> \<exists>w'. popstate loc w = Inr w'"
proof (cases "isClient w")
  case True
  then have "isClient (w\<lparr>location_search := loc\<rparr>)" by simp
  from dispatch_returns [OF this] show ?thesis by (simp add: popstate_def)
next
  case False
  assume "listener_inv w"
  with False have "listeners w = []" by (auto simp: listener_inv_def split: if_splits)
  then show ?thesis by (simp add: popstate_def)
qed

lemma run_reachable: "reachable w \<Longrightarrow> run xs w = Inr w' \<Longrightarrow> reachable w'"
proof (induction xs arbitrary: w)
  case Nil
  then show ?case by simp
next
  case (Cons x xs)
  then obtain w1 where 1: "step x w = Inr w1" "run xs w1 = Inr w'"
    by (auto split: sum.splits)
  from Cons.prems(1) 1(1) have "reachable w1" by (rule reachable_step)
  from Cons.IH [OF this 1(2)] show ?case .
qed

text \<open>
  Claim C5. The watcher callback of a scalar ref returns the ref as it is (caches and
  notification count) when the first value of its name equals the cached raw value, and
  that of an array ref when \<^verbatim>\<open>isEqualArrays\<close> holds of the values of its name and the
  cached list. Hence, in every world the library can reach, an assignment to a ref of one
  name leaves every ref of another name unchanged, and so does a navigation event that
  keeps the values of that name.
\<close>

theorem unchanged_values_never_notify:
  "(get_param (ref_name b) ps = writableValue b \<longrightarrow> watch_scalar ps b = b)
   \<and> (isEqualArrays (getAll (ref_name a) ps) (writableValue a) \<longrightarrow> watch_array ps a = a)
   \<and> (reachable w \<and> i < length (scalars w) \<and> k < length (scalars w)
        \<and> ref_name (scalars w ! k) \<noteq> ref_name (scalars w ! i)
        \<longrightarrow> scalars (set_value i v w) ! k = scalars w ! k)
   \<and> (reachable w \<and> i < length (scalars w) \<and> k' < length (arrays w)
        \<and> ref_name (arrays w ! k') \<noteq> ref_name (scalars w ! i)
        \<longrightarrow> arrays (set_value i v w) ! k' = arrays w ! k')
   \<and> (reachable w \<and> j < length (arrays w) \<and> k < length (scalars w)
        \<and> ref_name (scalars w ! k) \<noteq> ref_name (arrays w ! j)
        \<longrightarrow> scalars (set_array j vs w) ! k = scalars w ! k)
   \<and> (reachable w \<and> j < length (arrays w) \<and> k' < length (arrays w)
        \<and> ref_name (arrays w ! k') \<noteq> ref_name (arrays w ! j)
        \<longrightarrow> arrays (set_array j vs w) ! k' = arrays w ! k')
   \<and> (reachable w \<and> k < length (scalars w)
        \<and> get_param (ref_name (scalars w ! k)) loc = get_param (ref_name (scalars w ! k)) (current w)
        \<longrightarrow> (\<exists>w'. popstate loc w = Inr w' \<and> scalars w' ! k = scalars w ! k))
   \<and> (reachable w \<and> k' < length (arrays w)
        \<and> getAll (ref_name (arrays w ! k')) loc = getAll (ref_name (arrays w ! k')) (current w)
        \<longrightarrow> (\<exists>w'. popstate loc w = Inr w' \<and> arrays w' ! k' = arrays w ! k'))"
proof (intro conjI impI)
  assume h: "reachable w \<and> k < length (scalars w)
        \<and> get_param (ref_name (scalars w ! k)) loc = get_param (ref_name (scalars w ! k)) (current w)"
  then have c: "coherent w" and l: "listener_inv w"
    by (simp_all add: reachable_coherent reachable_listener_inv)
  from popstate_returns [OF l] obtain w' where p: "popstate loc w = Inr w'" by blast
  then have "dispatch (listeners w) (w\<lparr>location_search := loc\<rparr>) = Inr w'"
    by (simp add: popstate_def)
  from dispatch_same_scalar [OF this, of k] h c have "scalars w' ! k = scalars w ! k"
    by (simp add: current_def coherent_scalarD [unfolded current_def])
  with p show "\<exists>w'. popstate loc w = Inr w' \<and> scalars w' ! k = scalars w ! k" by blast
next
  assume h: "reachable w \<and> k' < length (arrays w)
        \<and> getAll (ref_name (arrays w ! k')) loc = getAll (ref_name (arrays w ! k')) (current w)"
  then have c: "coherent w" and l: "listener_inv w"
    by (simp_all add: reachable_coherent reachable_listener_inv)
  from popstate_returns [OF l] obtain w' where p: "popstate loc w = Inr w'" by blast
  then have "dispatch (listeners w) (w\<lparr>location_search := loc\<rparr>) = Inr w'"
    by (simp add: popstate_def)
  from dispatch_same_array [OF this, of k'] h c have "arrays w' ! k' = arrays w ! k'"
    by (simp add: current_def coherent_arrayD [unfolded current_def])
  with p show "\<exists>w'. popstate loc w = Inr w' \<and> arrays w' ! k' = arrays w ! k'" by blast
qed (simp_all add: watch_scalar_same watch_array_same isEqualArrays_iff reachable_coherent
      set_value_other_scalar set_value_other_array set_array_other_scalar set_array_other_array)

text \<open>
  Claim C5 at \<^verbatim>\<open>?bar=1&ids=7\<close> with refs of \<^verbatim>\<open>foo\<close>, \<^verbatim>\<open>bar\<close>, \<^verbatim>\<open>tags\<close> and \<^verbatim>\<open>ids\<close>: assignments
  to \<^verbatim>\<open>foo\<close> and \<^verbatim>\<open>tags\<close> and a navigation to \<^verbatim>\<open>?foo=q&bar=1&ids=7\<close> leave the refs of
  \<^verbatim>\<open>bar\<close> and \<^verbatim>\<open>ids\<close> unchanged, never notified.
\<close>

theorem unchanged_values_never_notify_witness:
  "case run [UseSearchParam ''foo'' None default_serializer None,
             UseSearchParam ''bar'' None default_serializer None,
             UseSearchParamArray ''tags'' None default_item_serializer None,
             UseSearchParamArray ''ids'' None default_item_serializer None]
            (init_world True [(''bar'', ''1''), (''ids'', ''7'')]) of
     Inl e \<Rightarrow> False
   | Inr w \<Rightarrow>
       watch_scalar [(''bar'', ''1''), (''x'', ''y'')] (scalars w ! 1) = scalars w ! 1
       \<and> watch_array [(''x'', ''y''), (''ids'', ''7'')] (arrays w ! 1) = arrays w ! 1
       \<and> get_value 0 (set_value 0 (Some ''baz'') w) = Some ''baz''
       \<and> scalars (set_value 0 (Some ''baz'') w) ! 1 = scalars w ! 1
       \<and> arrays (set_value 0 (Some ''baz'') w) ! 1 = arrays w ! 1
       \<and> get_array 0 (set_array 0 [''a''] w) = [''a'']
       \<and> scalars (set_array 0 [''a''] w) ! 1 = scalars w ! 1
       \<and> arrays (set_array 0 [''a''] w) ! 1 = arrays w ! 1
       \<and> triggered (scalars w ! 1) = 0 \<and> triggered (arrays w ! 1) = 0
       \<and> (case popstate [(''foo'', ''q''), (''bar'', ''1''), (''ids'', ''7'')] w of
            Inl e \<Rightarrow> False
          | Inr w' \<Rightarrow> scalars w' ! 1 = scalars w ! 1 \<and> arrays w' ! 1 = arrays w ! 1)"
proof -
  let ?w0 = "init_world True [(''bar'', ''1''), (''ids'', ''7'')] :: (string option, string) world"
  let ?ops = "[UseSearchParam ''foo'' None default_serializer None,
             UseSearchParam ''bar'' None default_serializer None,
             UseSearchParamArray ''tags'' None default_item_serializer None,
             UseSearchParamArray ''ids'' None default_item_serializer None]"
  obtain w where r: "run ?ops ?w0 = Inr w"
    and len: "length (scalars w) = 2" "length (arrays w) = 2"
    and names: "ref_name (scalars w ! 0) = ''foo''" "ref_name (scalars w ! 1) = ''bar''"
      "ref_name (arrays w ! 0) = ''tags''" "ref_name (arrays w ! 1) = ''ids''"
    and raw: "writableValue (scalars w ! 1) = Some ''1''" "writableValue (arrays w ! 1) = [''7'']"
    and cur: "current w = [(''bar'', ''1''), (''ids'', ''7'')]"
    and t: "triggered (scalars w ! 1) = 0" "triggered (arrays w ! 1) = 0"
    and own: "get_value 0 (set_value 0 (Some ''baz'') w) = Some ''baz''"
      "get_array 0 (set_array 0 [''a''] w) = [''a'']"
    by (simp add: run_defs step_defs)
  have reach: "reachable w"
    using reachable_init r by (rule run_reachable)
  note inst = unchanged_values_never_notify [of "scalars w ! 1" "[(''bar'', ''1''), (''x'', ''y'')]"
      "arrays w ! 1" w 0 1 "Some ''baz''" 1 0 "[''a'']"
      "[(''foo'', ''q''), (''bar'', ''1''), (''ids'', ''7'')]"]
  note rest1 = inst [THEN conjunct2]
  note rest2 = rest1 [THEN conjunct2]
  note rest3 = rest2 [THEN conjunct2]
  note rest4 = rest3 [THEN conjunct2]
  note rest5 = rest4 [THEN conjunct2]
  note rest6 = rest5 [THEN conjunct2]
  have 1: "watch_scalar [(''bar'', ''1''), (''x'', ''y'')] (scalars w ! 1) = scalars w ! 1"
    using inst [THEN conjunct1] names raw by (simp add: get_param_def)
  note inst2 = unchanged_values_never_notify [where a = "arrays w ! 1"
      and ps = "[(''x'', ''y''), (''ids'', ''7'')]", THEN conjunct2, THEN conjunct1]
  have 2: "watch_array [(''x'', ''y''), (''ids'', ''7'')] (arrays w ! 1) = arrays w ! 1"
    using inst2 names raw by (simp add: getAll_def isEqualArrays_iff)
  have 3: "scalars (set_value 0 (Some ''baz'') w) ! 1 = scalars w ! 1"
    using rest2 [THEN conjunct1] reach len names by simp
  have 4: "arrays (set_value 0 (Some ''baz'') w) ! 1 = arrays w ! 1"
    using rest3 [THEN conjunct1] reach len names by simp
  have 5: "scalars (set_array 0 [''a''] w) ! 1 = scalars w ! 1"
    using rest4 [THEN conjunct1] reach len names by simp
  have 6: "arrays (set_array 0 [''a''] w) ! 1 = arrays w ! 1"
    using rest5 [THEN conjunct1] reach len names by simp
  have "\<exists>w'. popstate [(''foo'', ''q''), (''bar'', ''1''), (''ids'', ''7'')] w = Inr w'
          \<and> scalars w' ! 1 = scalars w ! 1"
    using rest6 [THEN conjunct1] reach len names cur by (simp add: get_param_def)
  then obtain w' where 7: "popstate [(''foo'', ''q''), (''bar'', ''1''), (''ids'', ''7'')] w = Inr w'"
    "scalars w' ! 1 = scalars w ! 1"
    by blast
  have "\<exists>w'. popstate [(''foo'', ''q''), (''bar'', ''1''), (''ids'', ''7'')] w = Inr w'
          \<and> arrays w' ! 1 = arrays w ! 1"
    using rest6 [THEN conjunct2] reach len names cur by (simp add: getAll_def)
  with 7 have 8: "arrays w' ! 1 = arrays w ! 1" by auto
  from 1 2 3 4 5 6 7 8 t own show ?thesis unfolding r by simp
qed

subsection \<open>The listener outlived by refs of another scope\<close>

text \<open>
  Claim C8 fails on the code. A ref of \<^verbatim>\<open>a\<close> is created in scope 1, which installs the
  listener, and a ref of \<^verbatim>\<open>b\<close> in scope 2. Disposing scope 1 removes the listener and
  resets the flag although scope 2 is alive and its ref still watches; a navigation to
  \<^verbatim>\<open>?b=x\<close> is then heard by nobody: the shared object stays empty and the ref of \<^verbatim>\<open>b\<close>
  still reads null.
\<close>

theorem listener_torn_down_while_another_scope_lives:
  "case run [UseSearchParam ''a'' None default_serializer (Some 1),
             UseSearchParam ''b'' None default_serializer (Some 2),
             DisposeScope 1]
            (init_world True [] :: (string option, string) world) of
     Inl e \<Rightarrow> False
   | Inr w \<Rightarrow>
       owner_scope (scalars w ! 1) = Some 2 \<and> watching (scalars w ! 1)
       \<and> \<not> isListeningPopsate w \<and> listeners w = []
       \<and> (case popstate [(''b'', ''x'')] w of
            Inl e \<Rightarrow> False
          | Inr w' \<Rightarrow>
              location_search w' = [(''b'', ''x'')] \<and> current w' = [] \<and> get_value 1 w' = None)"
  by (simp add: run_defs step_defs)

subsection \<open>Navigation calls are queued only where a window exists\<close>

lemma run_hooks_pending:
  "run_hooks s hs w = Inr w' \<Longrightarrow> isClient w' = isClient w \<and> pending w' = pending w"
proof (induction hs arbitrary: w)
  case Nil
  then show ?case by simp
next
  case (Cons h hs)
  show ?case
  proof (cases "fst h = s")
    case True
    with Cons.prems obtain w1 where 1: "dispose_hook (snd h) w = Inr w1" "run_hooks s hs w1 = Inr w'"
      by (auto split: sum.splits)
    from 1(1) have "isClient w1 = isClient w \<and> pending w1 = pending w"
      by (auto simp: dispose_hook_def split: if_splits)
    with Cons.IH [OF 1(2)] show ?thesis by simp
  next
    case False
    with Cons.prems Cons.IH show ?thesis by simp
  qed
qed

lemma dispatch_pending:
  "dispatch ls w = Inr w' \<Longrightarrow> isClient w' = isClient w \<and> pending w' = pending w"
proof (induction ls arbitrary: w)
  case Nil
  then show ?case by simp
next
  case (Cons l ls)
  then obtain w1 where 1: "onPopstate w = Inr w1" "dispatch ls w1 = Inr w'"
    by (auto split: sum.splits)
  from 1(1) have "isClient w1 = isClient w \<and> pending w1 = pending w"
    by (auto simp: onPopstate_def triggerRef_def split: if_splits)
  with Cons.IH [OF 1(2)] show ?case by simp
qed

lemma run_ticks_pending:
  "run_ticks navs w = Inr w' \<Longrightarrow> isClient w' = isClient w \<and> pending w' = pending w"
proof (induction navs arbitrary: w)
  case Nil
  then show ?case by simp
next
  case (Cons nav navs)
  then obtain w1 where 1: "call_navigate nav (current w) w = Inr w1" "run_ticks navs w1 = Inr w'"
    by (auto split: sum.splits)
  from 1(1) have "isClient w1 = isClient w \<and> pending w1 = pending w"
    by (cases nav) (auto simp: call_navigate_def defaultNavigate_def split: if_splits)
  with Cons.IH [OF 1(2)] show ?case by simp
qed

lemma listenPopstate_pending:
  "listenPopstate scope w = Inr w' \<Longrightarrow> isClient w' = isClient w \<and> pending w' = pending w"
  by (cases scope) (auto simp: listenPopstate_def addEventListener_def split: if_splits)

lemma step_pending:
  assumes "isClient w \<or> pending w = []" and "step x w = Inr w'"
  shows "isClient w' \<or> pending w' = []"
proof (cases x)
  case (UseSearchParam name nav ser scope)
  with assms(2) obtain w0 where "listenPopstate scope w0 = Inr w'"
    "isClient w0 = isClient w" "pending w0 = pending w"
    by (auto simp: useSearchParam_def Let_def split: sum.splits)
  with listenPopstate_pending [of scope w0 w'] assms(1) show ?thesis by simp
next
  case (UseSearchParamArray name nav ser scope)
  with assms(2) obtain w0 where "listenPopstate scope w0 = Inr w'"
    "isClient w0 = isClient w" "pending w0 = pending w"
    by (auto simp: useSearchParamArray_def Let_def split: sum.splits)
  with listenPopstate_pending [of scope w0 w'] assms(1) show ?thesis by simp
next
  case (SetValue i v)
  with assms show ?thesis
    by (cases "isClient w") (auto simp: set_value_frame set_value_pending_server)
next
  case (SetArray i vs)
  with assms show ?thesis
    by (cases "isClient w") (auto simp: set_array_frame set_array_pending_server)
next
  case (Popstate loc)
  with assms(2) have "dispatch (listeners w) (w\<lparr>location_search := loc\<rparr>) = Inr w'"
    by (simp add: popstate_def)
  from dispatch_pending [OF this] assms(1) show ?thesis by simp
next
  case (DisposeScope s)
  with assms(2) have "run_hooks s (dispose_hooks w)
       (w\<lparr> scalars := stop_watchers s (scalars w),
           arrays := stop_watchers s (arrays w),
           dispose_hooks := filter (\<lambda>h. fst h \<noteq> s) (dispose_hooks w) \<rparr>) = Inr w'"
    by (simp add: disposeScope_def)
  from run_hooks_pending [OF this] assms(1) show ?thesis by simp
next
  case Flush
  with assms(2) have "run_ticks (pending w) (w\<lparr>pending := []\<rparr>) = Inr w'"
    by (simp add: flush_def)
  from run_ticks_pending [OF this] show ?thesis by simp
qed

lemma reachable_pending: "reachable w \<Longrightarrow> isClient w \<or> pending w = []"
proof (induction rule: reachable.induct)
  case (reachable_init client loc)
  show ?case by (simp add: init_world_def)
next
  case (reachable_step w x w')
  then show ?case by (simp add: step_pending)
qed

lemma reachable_flush_returns: "reachable w \<Longrightarrow> \<exists>w'. flush w = Inr w'"
  using flush_returns [OF reachable_pending] by blast

end
